theory Spec2Isabelle
  imports Main "HOL-Library.Word" "HOL-Library.Signed_Division"
begin

section \<open>The program\<close>

text \<open>
  C \<^verbatim>\<open>int\<close> and \<^verbatim>\<open>unsigned\<close> are 32-bit words. A word read through \<open>sint\<close> is the
  \<^verbatim>\<open>int\<close> it stores, read through \<open>uint\<close> or \<open>unat\<close> the \<^verbatim>\<open>unsigned\<close>. Where the
  source mixes the two (\<^verbatim>\<open>col += num_cols\<close>, \<^verbatim>\<open>row*num_cols + col\<close>,
  \<^verbatim>\<open>cur + rows_per_thread - 1\<close>) the \<^verbatim>\<open>int\<close> is converted to \<^verbatim>\<open>unsigned\<close>, the arithmetic
  wraps modulo \<open>2 ^ 32\<close> and the result is converted back: on words this is plain
  \<open>+\<close>, \<open>-\<close> and \<open>*\<close>. Comparisons between \<^verbatim>\<open>int\<close>s are the signed ones, \<open><s\<close> and
  \<open>\<le>s\<close>.
\<close>

subsection \<open>gol.c: translate_to_1D\<close>

definition translate_to_1D :: "32 word \<Rightarrow> 32 word \<Rightarrow> 32 word \<Rightarrow> 32 word \<Rightarrow> 32 word" where
  "translate_to_1D col row num_cols num_rows =
     (let col' = (if col <s 0 then col + num_cols
                  else if num_cols \<le>s col then col - num_cols
                  else col);
          row' = (if row <s 0 then row + num_rows
                  else if num_rows \<le>s row then row - num_rows
                  else row)
      in row' * num_cols + col')"

subsection \<open>Arrays and iteration\<close>

text \<open>
  An \<^verbatim>\<open>int *\<close> grid is the list of its cells. An access outside the allocated cells is
  undefined behaviour in C: here it is the result \<open>None\<close>, which every caller passes on.
\<close>

definition load :: "32 word list \<Rightarrow> 32 word \<Rightarrow> 32 word option" where
  "load world index =
     (if unat index < length world then Some (world ! unat index) else None)"

definition store :: "32 word list \<Rightarrow> 32 word \<Rightarrow> 32 word \<Rightarrow> 32 word list option" where
  "store world index v =
     (if unat index < length world then Some (world[unat index := v]) else None)"

text \<open>A loop body run once for each value of the loop counter, stopping at \<open>None\<close>.\<close>

fun for_each :: "('a \<Rightarrow> 's \<Rightarrow> 's option) \<Rightarrow> 'a list \<Rightarrow> 's \<Rightarrow> 's option" where
  "for_each body [] s = Some s"
| "for_each body (a # as) s =
     (case body a s of None \<Rightarrow> None | Some s' \<Rightarrow> for_each body as s')"

text \<open>
  The values an \<^verbatim>\<open>int\<close> counter takes in \<^verbatim>\<open>for (c = lo; c <= hi; c++)\<close> and in
  \<^verbatim>\<open>for (c = lo; c < hi; c++)\<close>, as long as the counter stays below \<^verbatim>\<open>INT_MAX\<close>: none
  when the condition fails at once, and else \<open>lo\<close>, \<open>lo + 1\<close> and so on up to the bound.
\<close>

definition count_from :: "32 word \<Rightarrow> nat \<Rightarrow> 32 word list" where
  "count_from lo n = map (\<lambda>k. lo + word_of_nat k) [0..<n]"

definition le_range :: "32 word \<Rightarrow> 32 word \<Rightarrow> 32 word list" where
  "le_range lo hi = count_from lo (nat (sint hi - sint lo + 1))"

definition lt_range :: "32 word \<Rightarrow> 32 word \<Rightarrow> 32 word list" where
  "lt_range lo hi = count_from lo (nat (sint hi - sint lo))"

subsection \<open>gol.c: count_live_neighbors\<close>

definition count_live_neighbors ::
  "32 word list \<Rightarrow> 32 word \<Rightarrow> 32 word \<Rightarrow> 32 word \<Rightarrow> 32 word \<Rightarrow> 32 word option" where
  "count_live_neighbors world x y num_cols num_rows =
     for_each (\<lambda>col sum.
        for_each (\<lambda>row sum.
           if col = x \<and> row = y then Some sum
           else (case load world (translate_to_1D col row num_cols num_rows) of
                   None \<Rightarrow> None
                 | Some c \<Rightarrow> if c = 1 then Some (sum + 1) else Some sum))
         (le_range (y - 1) (y + 1)) sum)
      (le_range (x - 1) (x + 1)) 0"

subsection \<open>gol.c: update_cell and update_world\<close>

text \<open>
  The memory of a run: the live grid \<^verbatim>\<open>world\<close>, the snapshot \<^verbatim>\<open>world_copy\<close> (two
  separate allocations), and the indices of the stores made to the live grid, oldest
  first. \<^verbatim>\<open>update_world\<close>, the only caller of \<^verbatim>\<open>update_cell\<close>, passes the snapshot as
  \<^verbatim>\<open>curr_world\<close> and the live grid as \<^verbatim>\<open>next_world\<close>.
\<close>

record memory =
  next_world :: "32 word list"
  curr_world :: "32 word list"
  written :: "nat list"

definition store_next :: "memory \<Rightarrow> 32 word \<Rightarrow> 32 word \<Rightarrow> memory option" where
  "store_next m index v =
     (case store (next_world m) index v of
        None \<Rightarrow> None
      | Some w \<Rightarrow> Some (m\<lparr>next_world := w, written := written m @ [unat index]\<rparr>))"

definition update_cell :: "memory \<Rightarrow> 32 word \<Rightarrow> 32 word \<Rightarrow> 32 word \<Rightarrow> 32 word \<Rightarrow> memory option" where
  "update_cell m x y num_cols num_rows =
     (let index = translate_to_1D x y num_cols num_rows in
      case count_live_neighbors (curr_world m) x y num_cols num_rows of
        None \<Rightarrow> None
      | Some num_live_neighbors \<Rightarrow>
          (case load (curr_world m) index of
             None \<Rightarrow> None
           | Some c \<Rightarrow>
               if c = 1 \<and> (num_live_neighbors < 2 \<or> 3 < num_live_neighbors)
               then store_next m index 0
               else if num_live_neighbors = 3
               then store_next m index 1
               else Some m))"

definition update_world ::
  "memory \<Rightarrow> 32 word \<Rightarrow> 32 word \<Rightarrow> 32 word \<Rightarrow> 32 word \<Rightarrow> memory option" where
  "update_world m num_cols num_rows start_row end_row =
     for_each (\<lambda>y m.
        for_each (\<lambda>x m. update_cell m x y num_cols num_rows) (lt_range 0 num_cols) m)
      (le_range start_row end_row) m"

subsection \<open>gol.c: initialize_world\<close>

text \<open>
  The configuration file is the sequence of items the \<^verbatim>\<open>fscanf\<close> conversions meet:
  \<open>Some v\<close> is an item that converts to the 32-bit value \<open>v\<close>, \<open>None\<close> one that does
  not convert; past the last item every conversion fails. A file that \<^verbatim>\<open>fopen\<close> cannot
  open is \<open>None\<close>.
\<close>

type_synonym config = "32 word option list"

fun fscanf_d :: "config \<Rightarrow> (32 word \<times> config) option" where
  "fscanf_d (Some v # rest) = Some (v, rest)"
| "fscanf_d _ = None"

fun fscanf_u_u :: "config \<Rightarrow> ((32 word \<times> 32 word) \<times> config) option" where
  "fscanf_u_u (Some col # Some row # rest) = Some ((col, row), rest)"
| "fscanf_u_u _ = None"

text \<open>
  What \<^verbatim>\<open>initialize_world\<close> does: a store \<^verbatim>\<open>world[index] = 1\<close> outside the allocated
  cells, at the index kept here (undefined behaviour in C), the return of \<^verbatim>\<open>NULL\<close>, or
  the return of a grid, with the width and height stored through the two pointers.
\<close>

datatype init = Stray_store "32 word" | Null | World "32 word list" "32 word" "32 word"

text \<open>
  \<^verbatim>\<open>calloc(*num_cols * *num_rows, sizeof(int))\<close>: the \<^verbatim>\<open>int\<close> product is taken modulo
  \<open>2 ^ 32\<close>, as the compiled multiplication gives it (C leaves its overflow undefined).
  A negative product converts to a size that cannot be allocated and gives the null
  pointer, \<open>None\<close>. Any other allocation is taken to succeed, with all cells zero.
\<close>

definition calloc_world :: "32 word \<Rightarrow> 32 word \<Rightarrow> 32 word list option" where
  "calloc_world num_cols num_rows =
     (let n = sint (num_cols * num_rows) in
      if n < 0 then None else Some (replicate (nat n) 0))"

fun read_pairs ::
  "nat \<Rightarrow> config \<Rightarrow> 32 word list option \<Rightarrow> 32 word \<Rightarrow> 32 word \<Rightarrow> init" where
  "read_pairs 0 config_file world num_cols num_rows =
     (case world of None \<Rightarrow> Null | Some w \<Rightarrow> World w num_cols num_rows)"
| "read_pairs (Suc n) config_file world num_cols num_rows =
     (case fscanf_u_u config_file of
        None \<Rightarrow> Null
      | Some ((col, row), rest) \<Rightarrow>
          (case world of
             None \<Rightarrow> Stray_store (translate_to_1D col row num_cols num_rows)
           | Some w \<Rightarrow>
               (case store w (translate_to_1D col row num_cols num_rows) 1 of
                  None \<Rightarrow> Stray_store (translate_to_1D col row num_cols num_rows)
                | Some w' \<Rightarrow> read_pairs n rest (Some w') num_cols num_rows)))"

definition initialize_world :: "config option \<Rightarrow> init" where
  "initialize_world config_file =
     (case config_file of
        None \<Rightarrow> Null
      | Some f0 \<Rightarrow>
          (case fscanf_d f0 of
             None \<Rightarrow> Null
           | Some (num_rows, f1) \<Rightarrow>
               (case fscanf_d f1 of
                  None \<Rightarrow> Null
                | Some (num_cols, f2) \<Rightarrow>
                    (case fscanf_d f2 of
                       None \<Rightarrow> Null
                     | Some (num_pairs, f3) \<Rightarrow>
                         (let world = calloc_world num_cols num_rows in
                          read_pairs (unat num_pairs) f3 world num_cols num_rows)))))"

subsection \<open>main.c: run_threads and thread_function\<close>

text \<open>
  The fields of \<^verbatim>\<open>struct ThreadData\<close> that the computation reads. The two grid
  pointers are the two grids of the memory, the same for every thread; the barrier and
  the delay do not reach the grids.
\<close>

record ThreadData =
  td_id :: "32 word"
  td_width :: "32 word"
  td_height :: "32 word"
  td_num_turns :: "32 word"
  td_start_row :: "32 word"
  td_end_row :: "32 word"

text \<open>
  The loop of \<^verbatim>\<open>run_threads\<close> that fills \<^verbatim>\<open>td[i]\<close>, for the values \<open>i\<close> of its counter;
  \<^verbatim>\<open>remainder\<close> and \<^verbatim>\<open>cur\<close> are \<^verbatim>\<open>int\<close>, \<^verbatim>\<open>rows_per_thread\<close> is \<^verbatim>\<open>unsigned\<close>.
\<close>

fun fill_td ::
  "32 word list \<Rightarrow> 32 word \<Rightarrow> 32 word \<Rightarrow> 32 word \<Rightarrow> 32 word \<Rightarrow> 32 word \<Rightarrow> 32 word \<Rightarrow>
     ThreadData list" where
  "fill_td [] remainder cur rows_per_thread num_turns width height = []"
| "fill_td (i # is) remainder cur rows_per_thread num_turns width height =
     (if 0 <s remainder then
        (let start = cur; end' = cur + rows_per_thread in
         \<lparr>td_id = i, td_width = width, td_height = height, td_num_turns = num_turns,
          td_start_row = start, td_end_row = end'\<rparr>
         # fill_td is (remainder - 1) (end' + 1) rows_per_thread num_turns width height)
      else
        (let start = cur; end' = cur + rows_per_thread - 1 in
         \<lparr>td_id = i, td_width = width, td_height = height, td_num_turns = num_turns,
          td_start_row = start, td_end_row = end'\<rparr>
         # fill_td is remainder (end' + 1) rows_per_thread num_turns width height))"

text \<open>
  C's \<^verbatim>\<open>/\<close> and \<^verbatim>\<open>%\<close> on \<^verbatim>\<open>int\<close> truncate towards zero.
\<close>

definition c_div :: "32 word \<Rightarrow> 32 word \<Rightarrow> 32 word" where
  "c_div a b = word_of_int (sint a sdiv sint b)"

definition c_mod :: "32 word \<Rightarrow> 32 word \<Rightarrow> 32 word" where
  "c_mod a b = word_of_int (sint a smod sint b)"

definition partition_rows :: "32 word \<Rightarrow> 32 word \<Rightarrow> 32 word \<Rightarrow> 32 word \<Rightarrow> ThreadData list" where
  "partition_rows num_threads num_turns width height =
     (let remainder = c_mod height num_threads;
          cur = 0;
          rows_per_thread = c_div height num_threads
      in fill_td (lt_range 0 num_threads) remainder cur rows_per_thread num_turns width height)"

text \<open>
  One turn of \<^verbatim>\<open>thread_function\<close> has two phases, each entered through a barrier that
  all threads pass together. In the first the thread with \<^verbatim>\<open>id == 0\<close> copies the live
  grid into the snapshot and the others do nothing; in the second every thread calls
  \<^verbatim>\<open>update_world\<close> on its rows.
\<close>

definition copy_phase :: "ThreadData \<Rightarrow> memory \<Rightarrow> memory option" where
  "copy_phase myargs m =
     (if td_id myargs = 0 then
        for_each (\<lambda>i m.
           case load (next_world m) i of
             None \<Rightarrow> None
           | Some v \<Rightarrow>
               (case store (curr_world m) i v of
                  None \<Rightarrow> None
                | Some c \<Rightarrow> Some (m\<lparr>curr_world := c\<rparr>)))
         (lt_range 0 (td_width myargs * td_height myargs)) m
      else Some m)"

definition update_phase :: "ThreadData \<Rightarrow> memory \<Rightarrow> memory option" where
  "update_phase myargs m =
     update_world m (td_width myargs) (td_height myargs)
       (td_start_row myargs) (td_end_row myargs)"

text \<open>
  The threads of a phase run one after the other, in the order of the list \<open>td\<close>. Every
  thread makes the same number of turns, \<^verbatim>\<open>num_turns\<close>.
\<close>

definition turn :: "ThreadData list \<Rightarrow> memory \<Rightarrow> memory option" where
  "turn td m =
     (case for_each copy_phase td m of
        None \<Rightarrow> None
      | Some m' \<Rightarrow> for_each update_phase td m')"

fun turns :: "nat \<Rightarrow> ThreadData list \<Rightarrow> memory \<Rightarrow> memory option" where
  "turns 0 td m = Some m"
| "turns (Suc n) td m =
     (case turn td m of None \<Rightarrow> None | Some m' \<Rightarrow> turns n td m')"

text \<open>
  How the process ends when it does not complete the run: through \<^verbatim>\<open>usage\<close>, after
  \<^verbatim>\<open>initialize_world\<close> has returned \<^verbatim>\<open>NULL\<close>, through \<^verbatim>\<open>exit(EXIT_FAILURE)\<close> after a
  failed \<^verbatim>\<open>pthread\<close> call, or in undefined behaviour.
\<close>

datatype exit = Usage | Init_error | Exit_failure | Undefined_behaviour

text \<open>
  \<^verbatim>\<open>run_threads\<close> first divides by \<^verbatim>\<open>num_threads\<close>: zero threads is undefined
  behaviour, and so is the quotient of \<^verbatim>\<open>INT_MIN\<close> by \<open>-1\<close>. \<^verbatim>\<open>pthread_barrier_init\<close>
  takes its count as \<^verbatim>\<open>unsigned\<close> and refuses one above \<^verbatim>\<open>INT_MAX\<close>, which is what a
  negative \<^verbatim>\<open>num_threads\<close> converts to: the process exits. With one thread or more, the
  allocations, the barrier and the creation and joining of the threads are taken to
  succeed (the source ends the process when a \<^verbatim>\<open>pthread\<close> call fails). The snapshot is
  a fresh allocation of \<^verbatim>\<open>width*height\<close> cells; its first contents are never read, and
  are zero here. The result is the live grid when all threads have been joined.
\<close>

definition run_threads ::
  "32 word \<Rightarrow> 32 word \<Rightarrow> 32 word list \<Rightarrow> 32 word \<Rightarrow> 32 word \<Rightarrow> exit + 32 word list" where
  "run_threads num_threads num_turns world width height =
     (if num_threads = 0 \<or> (num_threads = - 1 \<and> sint height = - (2 ^ 31))
      then Inl Undefined_behaviour
      else if num_threads <s 0 then Inl Exit_failure
      else
        (let td = partition_rows num_threads num_turns width height;
             world_copy = replicate (nat (sint (width * height))) 0
         in case turns (nat (sint num_turns)) td
                   \<lparr>next_world = world, curr_world = world_copy, written = []\<rparr> of
              None \<Rightarrow> Inl Undefined_behaviour
            | Some m \<Rightarrow> Inr (next_world m)))"

subsection \<open>main.c: the command line\<close>

text \<open>
  The variables that \<^verbatim>\<open>main\<close> sets from the command line.
\<close>

record options =
  opt_config_filename :: "string option"
  opt_delay :: "32 word"
  opt_num_turns :: "32 word"
  opt_p :: "32 word"
  opt_num_threads :: "32 word"

definition defaults :: options where
  "defaults = \<lparr>opt_config_filename = None, opt_delay = 100, opt_num_turns = 20,
                opt_p = 1, opt_num_threads = 2\<rparr>"

text \<open>
  \<^verbatim>\<open>sscanf(optarg, "%d", &v)\<close>: white space, an optional sign and decimal digits. It
  converts nothing, and does not return 1, when no digit is there. A number outside the
  range of \<^verbatim>\<open>int\<close> cannot be stored in \<open>v\<close>: C leaves the behaviour undefined.
\<close>

datatype scan = Mismatch | Unrepresentable | Converted "32 word"

definition is_digit :: "char \<Rightarrow> bool" where
  "is_digit c \<longleftrightarrow> (48 :: nat) \<le> of_char c \<and> (of_char c :: nat) \<le> 57"

definition is_space :: "char \<Rightarrow> bool" where
  "is_space c \<longleftrightarrow> c \<in> set [CHR '' '', CHR 0x09, CHR 0x0A, CHR 0x0B, CHR 0x0C, CHR 0x0D]"

definition decimal :: "string \<Rightarrow> int" where
  "decimal ds = foldl (\<lambda>n c. 10 * n + (of_char c - 48)) 0 ds"

definition sscanf_d :: "string \<Rightarrow> scan" where
  "sscanf_d s =
     (let s1 = dropWhile is_space s;
          neg = (s1 \<noteq> [] \<and> hd s1 = CHR ''-'');
          s2 = (if s1 \<noteq> [] \<and> (hd s1 = CHR ''-'' \<or> hd s1 = CHR ''+'') then tl s1 else s1);
          ds = takeWhile is_digit s2;
          n = (if neg then - decimal ds else decimal ds)
      in if ds = [] then Mismatch
         else if - (2 ^ 31) \<le> n \<and> n < 2 ^ 31 then Converted (word_of_int n)
         else Unrepresentable)"

text \<open>
  The \<^verbatim>\<open>getopt\<close> loop of \<^verbatim>\<open>main\<close>, over the option characters and arguments that
  \<^verbatim>\<open>getopt\<close> returns in turn; \<^verbatim>\<open>usage\<close> ends the process. An option character that
  is not one of the four is \<^verbatim>\<open>getopt\<close>'s \<^verbatim>\<open>'?'\<close>.
\<close>

fun getopt_loop :: "(char \<times> string) list \<Rightarrow> options \<Rightarrow> exit + options" where
  "getopt_loop [] opts = Inr opts"
| "getopt_loop ((ch, optarg) # rest) opts =
     (if ch = CHR ''c'' then getopt_loop rest (opts\<lparr>opt_config_filename := Some optarg\<rparr>)
      else if ch = CHR ''t'' then
        (case sscanf_d optarg of
           Mismatch \<Rightarrow> Inl Usage
         | Unrepresentable \<Rightarrow> Inl Undefined_behaviour
         | Converted v \<Rightarrow> getopt_loop rest (opts\<lparr>opt_num_turns := v\<rparr>))
      else if ch = CHR ''d'' then
        (case sscanf_d optarg of
           Mismatch \<Rightarrow> Inl Usage
         | Unrepresentable \<Rightarrow> Inl Undefined_behaviour
         | Converted v \<Rightarrow> getopt_loop rest (opts\<lparr>opt_delay := v\<rparr>))
      else if ch = CHR ''p'' then
        (case sscanf_d optarg of
           Mismatch \<Rightarrow> Inl Usage
         | Unrepresentable \<Rightarrow> Inl Undefined_behaviour
         | Converted v \<Rightarrow> getopt_loop rest (opts\<lparr>opt_num_threads := v\<rparr>))
      else Inl Usage)"

text \<open>
  \<^verbatim>\<open>main\<close>, from the command line and the file system to the grid it prints last.
\<close>

definition main :: "(char \<times> string) list \<Rightarrow> (string \<Rightarrow> config option) \<Rightarrow> exit + 32 word list" where
  "main args files =
     (case getopt_loop args defaults of
        Inl e \<Rightarrow> Inl e
      | Inr opts \<Rightarrow>
          (case opt_config_filename opts of
             None \<Rightarrow> Inl Usage
           | Some config_filename \<Rightarrow>
               (case initialize_world (files config_filename) of
                  Stray_store index \<Rightarrow> Inl Undefined_behaviour
                | Null \<Rightarrow> Inl Init_error
                | World world width height \<Rightarrow>
                    run_threads (opt_num_threads opts) (opt_num_turns opts)
                      world width height)))"

section \<open>The specification's notions\<close>

text \<open>
  A coordinate shifted once into range: \<open>n\<close> is added when it is negative and
  subtracted when it is \<open>n\<close> or more.
\<close>

definition wrap_once :: "int \<Rightarrow> int \<Rightarrow> int" where
  "wrap_once c n = (if c < 0 then c + n else if n \<le> c then c - n else c)"

definition torus_index :: "int \<Rightarrow> int \<Rightarrow> int \<Rightarrow> int \<Rightarrow> nat" where
  "torus_index W H c r = nat (wrap_once r H * W + wrap_once c W)"

text \<open>
  A grid of \<open>W\<close> columns and \<open>H\<close> rows: both positive \<^verbatim>\<open>int\<close>s, one cell for each
  index, and fewer than \<^verbatim>\<open>INT_MAX\<close> cells, so that no \<^verbatim>\<open>int\<close> counter of the source
  overflows.
\<close>

definition grid :: "32 word list \<Rightarrow> 32 word \<Rightarrow> 32 word \<Rightarrow> bool" where
  "grid world W H \<longleftrightarrow>
     0 <s W \<and> 0 <s H \<and> sint W * sint H < 2 ^ 31 - 1 \<and> length world = nat (sint W * sint H)"

text \<open>The eight offsets of the Moore neighbourhood, in the order the source visits them.\<close>

definition moore :: "(int \<times> int) list" where
  "moore = [(- 1, - 1), (- 1, 0), (- 1, 1), (0, - 1), (0, 1), (1, - 1), (1, 0), (1, 1)]"

definition live_neighbors :: "32 word list \<Rightarrow> int \<Rightarrow> int \<Rightarrow> int \<Rightarrow> int \<Rightarrow> nat" where
  "live_neighbors world W H x y =
     length (filter (\<lambda>(dx, dy). world ! torus_index W H (x + dx) (y + dy) = 1) moore)"

text \<open>The rule B3/S23, on the state of a cell and the number of its live neighbours.\<close>

definition rule :: "bool \<Rightarrow> nat \<Rightarrow> bool" where
  "rule alive n =
     (if alive \<and> (n < 2 \<or> 3 < n) then False
      else if alive then True
      else if n = 3 then True
      else False)"

text \<open>
  Two memories on a 3 by 3 grid, for evaluating the functions: one in which the live
  grid is a copy of the snapshot, and one in which the live grid is all dead while the
  top row of the snapshot is alive.
\<close>

definition example_grid :: "32 word list" where
  "example_grid = [0, 1, 0, 1, 1, 1, 0, 0, 0]"

definition example_memory :: memory where
  "example_memory = \<lparr>next_world = example_grid, curr_world = example_grid, written = []\<rparr>"

definition stale_memory :: memory where
  "stale_memory =
     \<lparr>next_world = [0, 0, 0, 0, 0, 0, 0, 0, 0], curr_world = [1, 1, 1, 0, 0, 0, 0, 0, 0],
      written = []\<rparr>"

text \<open>
  The partition of \<open>H\<close> rows among \<open>T\<close> workers in numbers, with \<open>b = H div T\<close> and
  \<open>r = H mod T\<close>: the first row of worker \<open>k\<close> (the rows given out before it) and the
  number of its rows. The rows that \<^verbatim>\<open>update_world\<close> visits for a thread are the values
  of its row counter.
\<close>

definition band_start :: "nat \<Rightarrow> nat \<Rightarrow> nat \<Rightarrow> nat" where
  "band_start b r k = k * b + min k r"

definition band_size :: "nat \<Rightarrow> nat \<Rightarrow> nat \<Rightarrow> nat" where
  "band_size b r k = (if k < r then b + 1 else b)"

definition band_rows :: "ThreadData \<Rightarrow> 32 word list" where
  "band_rows t = le_range (td_start_row t) (td_end_row t)"

text \<open>The items of a configuration file that hold a list of coordinate pairs.\<close>

definition pair_items :: "(32 word \<times> 32 word) list \<Rightarrow> config" where
  "pair_items pairs = concat (map (\<lambda>(col, row). [Some col, Some row]) pairs)"

text \<open>
  What \<^verbatim>\<open>update_cell\<close> leaves in the live grid at index \<open>i\<close>, from the snapshot and
  the cell \<open>old\<close> that the live grid held there; and one generation of a whole grid.
\<close>

definition updated :: "32 word list \<Rightarrow> int \<Rightarrow> int \<Rightarrow> 32 word \<Rightarrow> nat \<Rightarrow> 32 word" where
  "updated snapshot W H old i =
     (let n = live_neighbors snapshot W H (int i mod W) (int i div W) in
      if snapshot ! i = 1 \<and> (n < 2 \<or> 3 < n) then 0
      else if n = 3 then 1
      else old)"

definition life_step :: "int \<Rightarrow> int \<Rightarrow> 32 word list \<Rightarrow> 32 word list" where
  "life_step W H world = map (\<lambda>i. updated world W H (world ! i) i) [0 ..< length world]"

text \<open>The indices of the cells in the rows \<open>s\<close> to \<open>e\<close> of a grid of width \<open>W\<close>.\<close>

definition band_indices :: "int \<Rightarrow> int \<Rightarrow> int \<Rightarrow> nat set" where
  "band_indices W s e = {nat (y * W + x) | x y. s \<le> y \<and> y \<le> e \<and> 0 \<le> x \<and> x < W}"

text \<open>The live grid after the cells with an index in \<open>I\<close> have been updated.\<close>

definition update_on :: "nat set \<Rightarrow> 32 word list \<Rightarrow> int \<Rightarrow> int \<Rightarrow> 32 word list \<Rightarrow> 32 word list" where
  "update_on I snapshot W H live =
     map (\<lambda>i. if i \<in> I then updated snapshot W H (live ! i) i else live ! i) [0 ..< length live]"

text \<open>A blinker on a grid of 3 columns and 4 rows.\<close>

definition blinker :: "32 word list" where
  "blinker = [0, 1, 0, 0, 1, 0, 0, 1, 0, 0, 0, 0]"

text \<open>The arguments of the \<open>-p\<close> options of a command line, in their order.\<close>

definition p_arguments :: "(char \<times> string) list \<Rightarrow> string list" where
  "p_arguments args = map snd (filter (\<lambda>a. fst a = CHR ''p'') args)"

section \<open>Words as C integers\<close>

lemma sint_of_int_32:
  "- (2 ^ 31) \<le> k \<Longrightarrow> k < 2 ^ 31 \<Longrightarrow> sint (word_of_int k :: 32 word) = k"
  by (simp add: sint_sbintrunc' signed_take_bit_int_eq_self)

lemma sint_bounds_32: "- (2 ^ 31) \<le> sint (w :: 32 word)" "sint (w :: 32 word) < 2 ^ 31"
  using sint_ge [of w] sint_lt [of w] by simp_all

lemma uint_pos_signed: "0 \<le> sint (w :: 32 word) \<Longrightarrow> uint w = sint w"
  using sint_lt [of w] by (simp add: uint_sint take_bit_int_eq_self)

lemma unat_pos_signed: "0 <s (w :: 32 word) \<Longrightarrow> int (unat w) = sint w"
  using uint_pos_signed [of w] by (simp add: word_sless_alt)

section \<open>Toroidal indexing\<close>

lemma wrap_once_range:
  "0 < n \<Longrightarrow> - n \<le> c \<Longrightarrow> c < 2 * n \<Longrightarrow> 0 \<le> wrap_once c n \<and> wrap_once c n < n"
  by (simp add: wrap_once_def)

lemma wrap_once_mod:
  "0 < n \<Longrightarrow> - n \<le> c \<Longrightarrow> c < 2 * n \<Longrightarrow> wrap_once c n = c mod n"
proof -
  assume n: "0 < n" and lo: "- n \<le> c" and hi: "c < 2 * n"
  consider "c < 0" | "0 \<le> c" "c < n" | "n \<le> c" by linarith
  then show ?thesis
  proof cases
    case 1
    then have "(c + n) mod n = c + n" using lo by (intro mod_pos_pos_trivial) simp_all
    then show ?thesis using 1 by (simp add: wrap_once_def)
  next
    case 2
    then show ?thesis by (simp add: wrap_once_def)
  next
    case 3
    then have "(c - n) mod n = c - n" using hi by (intro mod_pos_pos_trivial) simp_all
    then show ?thesis using 3 n by (simp add: wrap_once_def)
  qed
qed

text \<open>The two branches on one coordinate, on words and on integers.\<close>

lemma wrap_word:
  fixes c n :: "32 word"
  assumes "0 <s n" "- sint n \<le> sint c" "sint c < 2 * sint n"
  shows "(if c <s 0 then c + n else if n \<le>s c then c - n else c)
          = word_of_int (wrap_once (sint c) (sint n))"
  using assms by (simp add: word_sless_alt word_sle_eq wrap_once_def)

lemma translate_to_1D_wrap:
  fixes col row W H :: "32 word"
  assumes "0 <s W" "0 <s H"
    and "- sint W \<le> sint col" "sint col < 2 * sint W"
    and "- sint H \<le> sint row" "sint row < 2 * sint H"
  shows "translate_to_1D col row W H
          = word_of_int (wrap_once (sint row) (sint H) * sint W + wrap_once (sint col) (sint W))"
proof -
  have "translate_to_1D col row W H
      = word_of_int (wrap_once (sint row) (sint H)) * W + word_of_int (wrap_once (sint col) (sint W))"
    unfolding translate_to_1D_def Let_def
    using wrap_word [OF assms(1) assms(3) assms(4)] wrap_word [OF assms(2) assms(5) assms(6)]
    by simp
  then show ?thesis by (simp add: word_of_int_hom_syms)
qed

lemma wrapped_index_less:
  assumes W: "0 < W" and H: "0 < H"
    and c: "- W \<le> c" "c < 2 * W" and r: "- H \<le> r" "r < 2 * H"
  shows "0 \<le> wrap_once r H * W + wrap_once c W"
    and "wrap_once r H * W + wrap_once c W < W * H"
proof -
  note c' = wrap_once_range [OF W c] and r' = wrap_once_range [OF H r]
  show "0 \<le> wrap_once r H * W + wrap_once c W" using c' r' W by simp
  have "wrap_once r H * W + wrap_once c W \<le> (H - 1) * W + wrap_once c W"
    using r' W by (simp add: mult_right_mono)
  also have "\<dots> < W * H" using c' by (simp add: algebra_simps)
  finally show "wrap_once r H * W + wrap_once c W < W * H" .
qed

lemma translate_to_1D_bound:
  fixes col row W H :: "32 word"
  assumes "0 <s W" "0 <s H"
    and "- sint W \<le> sint col" "sint col < 2 * sint W"
    and "- sint H \<le> sint row" "sint row < 2 * sint H"
  shows "unat (translate_to_1D col row W H) < unat W * unat H"
proof -
  let ?k = "wrap_once (sint row) (sint H) * sint W + wrap_once (sint col) (sint W)"
  have W: "0 < sint W" and H: "0 < sint H"
    using assms(1,2) by (simp_all add: word_sless_alt)
  note k = wrapped_index_less [OF W H assms(3-6)]
  have "uint (translate_to_1D col row W H) = ?k mod 2 ^ 32"
    unfolding translate_to_1D_wrap [OF assms] uint_word_of_int by simp
  also have "\<dots> \<le> ?k" using k(1) by (rule zmod_le_nonneg_dividend)
  finally have "uint (translate_to_1D col row W H) < sint W * sint H" using k(2) by simp
  then have "int (unat (translate_to_1D col row W H)) < int (unat W * unat H)"
    using unat_pos_signed [OF assms(1)] unat_pos_signed [OF assms(2)] by simp
  then show ?thesis by linarith
qed

lemma translate_to_1D_exact:
  fixes col row W H :: "32 word"
  assumes "0 <s W" "0 <s H"
    and "- sint W \<le> sint col" "sint col < 2 * sint W"
    and "- sint H \<le> sint row" "sint row < 2 * sint H"
    and fits: "sint W * sint H \<le> 2 ^ 32"
  shows "uint (translate_to_1D col row W H)
          = wrap_once (sint row) (sint H) * sint W + wrap_once (sint col) (sint W)"
proof -
  let ?k = "wrap_once (sint row) (sint H) * sint W + wrap_once (sint col) (sint W)"
  have W: "0 < sint W" and H: "0 < sint H"
    using assms(1,2) by (simp_all add: word_sless_alt)
  note k = wrapped_index_less [OF W H assms(3-6)]
  have "?k < 2 ^ 32" using k(2) fits by simp
  then have "?k mod 2 ^ 32 = ?k" using k(1) by (intro mod_pos_pos_trivial)
  then show ?thesis unfolding translate_to_1D_wrap [OF assms(1-6)] uint_word_of_int by simp
qed

lemma sint_minus_1:
  fixes w :: "32 word"
  assumes "- (2 ^ 31) < sint w"
  shows "sint (w - 1) = sint w - 1"
proof -
  have "w - 1 = word_of_int (sint w - 1)" by simp
  moreover have "sint (word_of_int (sint w - 1) :: 32 word) = sint w - 1"
    using assms sint_bounds_32 [of w] by (intro sint_of_int_32) simp_all
  ultimately show ?thesis by simp
qed

lemma sint_plus_1:
  fixes w :: "32 word"
  assumes "sint w < 2 ^ 31 - 1"
  shows "sint (w + 1) = sint w + 1"
proof -
  have "w + 1 = word_of_int (sint w + 1)" by simp
  moreover have "sint (word_of_int (sint w + 1) :: 32 word) = sint w + 1"
    using assms sint_bounds_32 [of w] by (intro sint_of_int_32) simp_all
  ultimately show ?thesis by simp
qed

text \<open>
  C4. For dimensions \<open>W\<close>, \<open>H\<close> that are positive \<^verbatim>\<open>int\<close>s, as the callers hold them,
  and a column in \<open>[-W, 2W)\<close>, a row in \<open>[-H, 2H)\<close>, the index
  \<open>translate_to_1D col row W H\<close> lies in \<open>[0, W*H)\<close>; it is
  \<open>row' * W + col'\<close> in unsigned arithmetic, and exactly that number when the grid has
  at most \<open>2 ^ 32\<close> cells, where \<open>col'\<close> and \<open>row'\<close> are the column and the row shifted
  once by the width and the height into \<open>[0, W)\<close> and \<open>[0, H)\<close>; index \<open>(-1, 0)\<close> is
  index \<open>(W-1, 0)\<close> and index \<open>(W, 0)\<close> is index \<open>(0, 0)\<close>.
\<close>

theorem translate_to_1D_in_range:
  fixes col row W H :: "32 word"
  assumes "0 <s W" and "0 <s H"
    and "- sint W \<le> sint col" and "sint col < 2 * sint W"
    and "- sint H \<le> sint row" and "sint row < 2 * sint H"
  shows "unat (translate_to_1D col row W H) < unat W * unat H
       \<and> translate_to_1D col row W H
           = word_of_int (wrap_once (sint row) (sint H) * sint W + wrap_once (sint col) (sint W))
       \<and> (sint W * sint H \<le> 2 ^ 32 \<longrightarrow>
            uint (translate_to_1D col row W H)
              = wrap_once (sint row) (sint H) * sint W + wrap_once (sint col) (sint W))
       \<and> 0 \<le> wrap_once (sint col) (sint W) \<and> wrap_once (sint col) (sint W) < sint W
       \<and> 0 \<le> wrap_once (sint row) (sint H) \<and> wrap_once (sint row) (sint H) < sint H
       \<and> translate_to_1D (- 1) 0 W H = translate_to_1D (W - 1) 0 W H
       \<and> translate_to_1D W 0 W H = translate_to_1D 0 0 W H"
proof -
  have W: "0 < sint W" and H: "0 < sint H"
    using assms(1,2) by (simp_all add: word_sless_alt)
  note c = wrap_once_range [OF W assms(3,4)] and r = wrap_once_range [OF H assms(5,6)]
  have m1: "sint (W - 1) = sint W - 1"
    using W by (intro sint_minus_1) simp
  have left: "translate_to_1D (- 1) 0 W H = translate_to_1D (W - 1) 0 W H"
    using W H m1 by (simp add: translate_to_1D_def word_sless_alt word_sle_eq)
  have right: "translate_to_1D W 0 W H = translate_to_1D 0 0 W H"
    using W H by (simp add: translate_to_1D_def word_sless_alt word_sle_eq)
  show ?thesis
    using translate_to_1D_bound [OF assms] translate_to_1D_wrap [OF assms]
      translate_to_1D_exact [OF assms] c r left right by blast
qed

theorem translate_to_1D_in_range_witness:
  "0 <s (5 :: 32 word) \<and> 0 <s (4 :: 32 word)
   \<and> - sint (5 :: 32 word) \<le> sint (- 1 :: 32 word) \<and> sint (- 1 :: 32 word) < 2 * sint (5 :: 32 word)
   \<and> - sint (4 :: 32 word) \<le> sint (4 :: 32 word) \<and> sint (4 :: 32 word) < 2 * sint (4 :: 32 word)
   \<and> translate_to_1D (- 1) 4 5 4 = 4
   \<and> unat (translate_to_1D (- 1) 4 5 4) < unat (5 :: 32 word) * unat (4 :: 32 word)
   \<and> translate_to_1D (- 1) 0 5 4 = translate_to_1D (5 - 1) 0 5 4"
  using translate_to_1D_in_range [of 5 4 "- 1" 4]
  by (simp add: word_sless_alt wrap_once_def)

section \<open>Iteration\<close>

lemma for_each_append:
  "for_each f (xs @ ys) s = (case for_each f xs s of None \<Rightarrow> None | Some s' \<Rightarrow> for_each f ys s')"
  by (induction xs arbitrary: s) (auto split: option.splits)

lemma for_each_map: "for_each f (map g xs) s = for_each (\<lambda>a. f (g a)) xs s"
  by (induction xs arbitrary: s) (auto split: option.splits)

lemma for_each_product:
  "for_each (\<lambda>a s. for_each (\<lambda>b s. f a b s) bs s) as s
     = for_each (\<lambda>(a, b) s. f a b s) (List.product as bs) s"
  by (induction as arbitrary: s) (auto simp: for_each_append for_each_map split: option.splits)

lemma for_each_cong:
  "(\<And>a s. a \<in> set xs \<Longrightarrow> f a s = g a s) \<Longrightarrow> for_each f xs s = for_each g xs s"
  by (induction xs arbitrary: s) (auto split: option.splits)

lemma count_from_3: "count_from lo 3 = [lo, lo + 1, lo + 2]"
  by (simp add: count_from_def numeral_3_eq_3 upt_rec)

lemma le_range_around:
  fixes x :: "32 word"
  assumes "- (2 ^ 31) < sint x" "sint x < 2 ^ 31 - 1"
  shows "le_range (x - 1) (x + 1) = [x - 1, x, x + 1]"
  using assms by (simp add: le_range_def sint_minus_1 sint_plus_1 count_from_3)

lemma grid_dims:
  assumes "grid world W H"
  shows "0 < sint W" "0 < sint H" "sint W < 2 ^ 31 - 1" "sint H < 2 ^ 31 - 1"
    "0 <s W" "0 <s H" "int (length world) = sint W * sint H"
    "length world = unat W * unat H"
proof -
  from assms have W: "0 < sint W" and H: "0 < sint H"
    and lt: "sint W * sint H < 2 ^ 31 - 1" and len: "length world = nat (sint W * sint H)"
    and sW: "0 <s W" and sH: "0 <s H"
    by (simp_all add: grid_def word_sless_alt)
  show "0 < sint W" "0 < sint H" "0 <s W" "0 <s H" by fact+
  have "sint W * 1 \<le> sint W * sint H" using W H by (intro mult_left_mono) simp_all
  then show "sint W < 2 ^ 31 - 1" using lt by simp
  have "1 * sint H \<le> sint W * sint H" using W H by (intro mult_right_mono) simp_all
  then show "sint H < 2 ^ 31 - 1" using lt by simp
  show il: "int (length world) = sint W * sint H" using len W H by simp
  have "int (length world) = int (unat W * unat H)"
    using il unat_pos_signed [OF sW] unat_pos_signed [OF sH] by simp
  then show "length world = unat W * unat H" by linarith
qed

lemma unat_translate_to_1D:
  fixes col row W H :: "32 word"
  assumes "grid world W H"
    and "- sint W \<le> sint col" "sint col < 2 * sint W"
    and "- sint H \<le> sint row" "sint row < 2 * sint H"
  shows "unat (translate_to_1D col row W H) = torus_index (sint W) (sint H) (sint col) (sint row)"
    and "torus_index (sint W) (sint H) (sint col) (sint row) < length world"
proof -
  note g = grid_dims [OF assms(1)]
  have fits: "sint W * sint H \<le> 2 ^ 32" using assms(1) by (simp add: grid_def)
  show eq: "unat (translate_to_1D col row W H) = torus_index (sint W) (sint H) (sint col) (sint row)"
    using translate_to_1D_exact [OF g(5,6) assms(2-5) fits]
    by (simp add: torus_index_def unat_eq_nat_uint)
  show "torus_index (sint W) (sint H) (sint col) (sint row) < length world"
    using translate_to_1D_bound [OF g(5,6) assms(2-5)] eq g(8) by simp
qed

lemma load_translate_to_1D:
  fixes col row W H :: "32 word"
  assumes "grid world W H"
    and "- sint W \<le> sint col" "sint col < 2 * sint W"
    and "- sint H \<le> sint row" "sint row < 2 * sint H"
  shows "load world (translate_to_1D col row W H)
          = Some (world ! torus_index (sint W) (sint H) (sint col) (sint row))"
  using unat_translate_to_1D [OF assms] by (simp add: load_def)

text \<open>The loop of \<^verbatim>\<open>count_live_neighbors\<close> over any list of coordinates.\<close>

lemma count_loop:
  assumes "\<And>c r. (c, r) \<in> set ps \<Longrightarrow> (c, r) \<noteq> (x, y) \<Longrightarrow> load world (idx c r) = Some (v c r)"
  shows "for_each (\<lambda>(col, row) sum.
            if col = x \<and> row = y then Some sum
            else (case load world (idx col row) of
                    None \<Rightarrow> None
                  | Some c \<Rightarrow> if c = 1 then Some (sum + 1) else Some sum)) ps (s :: 32 word)
         = Some (s + word_of_nat (length (filter (\<lambda>(c, r). (c, r) \<noteq> (x, y) \<and> v c r = 1) ps)))"
  using assms
proof (induction ps arbitrary: s)
  case Nil
  then show ?case by simp
next
  case (Cons p ps)
  obtain c r where p: "p = (c, r)" by (cases p)
  have rest: "\<And>c r. (c, r) \<in> set ps \<Longrightarrow> (c, r) \<noteq> (x, y) \<Longrightarrow> load world (idx c r) = Some (v c r)"
    using Cons.prems by simp
  show ?case
  proof (cases "(c, r) = (x, y)")
    case True
    then show ?thesis using Cons.IH [OF rest] p by simp
  next
    case False
    then have "load world (idx c r) = Some (v c r)" using Cons.prems p by simp
    then show ?thesis using Cons.IH [OF rest] p False by (simp add: algebra_simps)
  qed
qed

lemma neighbor_coords:
  fixes x y :: "32 word"
  shows "filter (\<lambda>p. p \<noteq> (x, y)) (List.product [x - 1, x, x + 1] [y - 1, y, y + 1])
       = map (\<lambda>(dx, dy). (x + word_of_int dx, y + word_of_int dy)) moore"
  by (simp add: moore_def)

lemma count_live_neighbors_eq:
  fixes x y W H :: "32 word"
  assumes g: "grid world W H"
    and x: "0 \<le> sint x" "sint x < sint W" and y: "0 \<le> sint y" "sint y < sint H"
  shows "count_live_neighbors world x y W H
          = Some (word_of_nat (live_neighbors world (sint W) (sint H) (sint x) (sint y)))"
proof -
  note d = grid_dims [OF g]
  let ?ps = "List.product [x - 1, x, x + 1] [y - 1, y, y + 1]"
  let ?v = "\<lambda>c r. world ! torus_index (sint W) (sint H) (sint c) (sint r)"
  have sx: "sint (x - 1) = sint x - 1" "sint (x + 1) = sint x + 1"
    using x d(3) by (simp_all add: sint_minus_1 sint_plus_1)
  have sy: "sint (y - 1) = sint y - 1" "sint (y + 1) = sint y + 1"
    using y d(4) by (simp_all add: sint_minus_1 sint_plus_1)
  have xr: "le_range (x - 1) (x + 1) = [x - 1, x, x + 1]"
    using x d(3) by (intro le_range_around) simp_all
  have yr: "le_range (y - 1) (y + 1) = [y - 1, y, y + 1]"
    using y d(4) by (intro le_range_around) simp_all
  have ld: "load world (translate_to_1D c r W H) = Some (?v c r)" if "(c, r) \<in> set ?ps" for c r
  proof -
    from that have "c \<in> {x - 1, x, x + 1}" "r \<in> {y - 1, y, y + 1}" by auto
    then have "- sint W \<le> sint c" "sint c < 2 * sint W" "- sint H \<le> sint r" "sint r < 2 * sint H"
      using sx sy x y by auto
    then show ?thesis by (rule load_translate_to_1D [OF g])
  qed
  have "count_live_neighbors world x y W H
      = Some (0 + word_of_nat (length (filter (\<lambda>(c, r). (c, r) \<noteq> (x, y) \<and> ?v c r = 1) ?ps)))"
    unfolding count_live_neighbors_def xr yr for_each_product
    by (rule count_loop) (use ld in blast)
  also have "filter (\<lambda>(c, r). (c, r) \<noteq> (x, y) \<and> ?v c r = 1) ?ps
      = filter (\<lambda>(c, r). ?v c r = 1) (filter (\<lambda>p. p \<noteq> (x, y)) ?ps)"
    unfolding filter_filter by (rule filter_cong) auto
  also have "\<dots> = filter (\<lambda>(c, r). ?v c r = 1)
                   (map (\<lambda>(dx, dy). (x + word_of_int dx, y + word_of_int dy)) moore)"
    unfolding neighbor_coords ..
  also have "length \<dots> = length (filter (\<lambda>(dx, dy). ?v (x + word_of_int dx) (y + word_of_int dy) = 1) moore)"
    unfolding filter_map length_map by (simp add: comp_def case_prod_unfold)
  also have "filter (\<lambda>(dx, dy). ?v (x + word_of_int dx) (y + word_of_int dy) = 1) moore
     = filter (\<lambda>(dx, dy). world ! torus_index (sint W) (sint H) (sint x + dx) (sint y + dy) = 1) moore"
    by (rule filter_cong) (use sx sy in \<open>auto simp: moore_def\<close>)
  finally show ?thesis by (simp add: live_neighbors_def)
qed

lemma live_neighbors_le_8: "live_neighbors world W H x y \<le> 8"
proof -
  have "live_neighbors world W H x y \<le> length moore"
    unfolding live_neighbors_def by (rule length_filter_le)
  then show ?thesis by (simp add: moore_def)
qed


section \<open>Counting neighbours\<close>

lemma torus_index_in_range:
  "0 \<le> x \<Longrightarrow> x < W \<Longrightarrow> 0 \<le> y \<Longrightarrow> y < H \<Longrightarrow> torus_index W H x y = nat (y * W + x)"
  by (simp add: torus_index_def wrap_once_def)

lemma unat_translate_to_1D_cell:
  fixes x y W H :: "32 word"
  assumes "grid world W H"
    and "0 \<le> sint x" "sint x < sint W" and "0 \<le> sint y" "sint y < sint H"
  shows "unat (translate_to_1D x y W H) = nat (sint y * sint W + sint x)"
    and "nat (sint y * sint W + sint x) < length world"
proof -
  have r: "- sint W \<le> sint x" "sint x < 2 * sint W" "- sint H \<le> sint y" "sint y < 2 * sint H"
    using assms(2-5) by simp_all
  show "unat (translate_to_1D x y W H) = nat (sint y * sint W + sint x)"
    using unat_translate_to_1D(1) [OF assms(1) r] torus_index_in_range [OF assms(2-5)] by simp
  show "nat (sint y * sint W + sint x) < length world"
    using unat_translate_to_1D(2) [OF assms(1) r] torus_index_in_range [OF assms(2-5)] by simp
qed

lemma small_word_of_nat:
  "n \<le> 8 \<Longrightarrow> unat (word_of_nat n :: 32 word) = n"
  by (simp add: unat_of_nat)

lemma small_word_less:
  assumes "n \<le> 8"
  shows "(word_of_nat n :: 32 word) < 2 \<longleftrightarrow> n < 2"
    and "3 < (word_of_nat n :: 32 word) \<longleftrightarrow> 3 < n"
    and "(word_of_nat n :: 32 word) = 3 \<longleftrightarrow> n = 3"
    and "(word_of_nat n :: 32 word) = 2 \<longleftrightarrow> n = 2"
  using small_word_of_nat [OF assms] by (auto simp: word_less_nat_alt word_eq_iff_unsigned [where ?'a = nat])

lemma update_cell_eq:
  fixes x y W H :: "32 word"
  assumes g: "grid (curr_world m) W H"
    and len: "length (next_world m) = length (curr_world m)"
    and x: "0 \<le> sint x" "sint x < sint W" and y: "0 \<le> sint y" "sint y < sint H"
  defines "i \<equiv> nat (sint y * sint W + sint x)"
  defines "n \<equiv> live_neighbors (curr_world m) (sint W) (sint H) (sint x) (sint y)"
  shows "update_cell m x y W H =
           (if curr_world m ! i = 1 \<and> (n < 2 \<or> 3 < n)
            then Some (m\<lparr>next_world := (next_world m)[i := 0], written := written m @ [i]\<rparr>)
            else if n = 3
            then Some (m\<lparr>next_world := (next_world m)[i := 1], written := written m @ [i]\<rparr>)
            else Some m)"
proof -
  note idx = unat_translate_to_1D_cell [OF g x y]
  have n8: "n \<le> 8" unfolding n_def by (rule live_neighbors_le_8)
  have cnt: "count_live_neighbors (curr_world m) x y W H = Some (word_of_nat n)"
    unfolding n_def by (rule count_live_neighbors_eq [OF g x y])
  have ld: "load (curr_world m) (translate_to_1D x y W H) = Some (curr_world m ! i)"
    using idx by (simp add: load_def i_def)
  have st: "store_next m (translate_to_1D x y W H) v
      = Some (m\<lparr>next_world := (next_world m)[i := v], written := written m @ [i]\<rparr>)" for v
    using idx len by (simp add: store_next_def store_def i_def)
  show ?thesis
    unfolding update_cell_def Let_def cnt ld option.case st small_word_less [OF n8] ..
qed

lemma row_major_inj:
  fixes W :: int
  assumes "0 \<le> c1" "c1 < W" "0 \<le> c2" "c2 < W" and eq: "r1 * W + c1 = r2 * W + c2"
  shows "r1 = r2 \<and> c1 = c2"
proof -
  have "(r1 * W + c1) div W = r1" "(r2 * W + c2) div W = r2"
    using assms(1-4) by (simp_all add: div_pos_pos_trivial)
  then have "r1 = r2" using eq by simp
  then show ?thesis using eq by simp
qed

lemma wrap_once_neighbor:
  assumes "2 \<le> n" "0 \<le> c" "c < n" "d \<in> {- 1, 1}"
  shows "wrap_once (c + d) n \<noteq> c"
  using assms by (auto simp: wrap_once_def)

lemma neighbor_index_neq:
  assumes W: "2 \<le> W" and H: "2 \<le> H"
    and x: "0 \<le> x" "x < W" and y: "0 \<le> y" "y < H"
    and d: "(dx, dy) \<in> set moore"
  shows "torus_index W H (x + dx) (y + dy) \<noteq> nat (y * W + x)"
proof
  assume eq: "torus_index W H (x + dx) (y + dy) = nat (y * W + x)"
  from d have dd: "dx \<in> {- 1, 0, 1}" "dy \<in> {- 1, 0, 1}" "dx \<noteq> 0 \<or> dy \<noteq> 0"
    by (auto simp: moore_def)
  have cx: "0 \<le> wrap_once (x + dx) W" "wrap_once (x + dx) W < W"
    using wrap_once_range [of W "x + dx"] W x dd(1) by auto
  have cy: "0 \<le> wrap_once (y + dy) H" "wrap_once (y + dy) H < H"
    using wrap_once_range [of H "y + dy"] H y dd(2) by auto
  have "0 \<le> wrap_once (y + dy) H * W + wrap_once (x + dx) W" using cx cy W by simp
  moreover have "0 \<le> y * W + x" using x y W by simp
  ultimately have "wrap_once (y + dy) H * W + wrap_once (x + dx) W = y * W + x"
    using eq by (simp add: torus_index_def)
  from row_major_inj [OF cx x this]
  have same: "wrap_once (y + dy) H = y" "wrap_once (x + dx) W = x" by simp_all
  from dd(3) show False
  proof
    assume "dx \<noteq> 0"
    then have "dx \<in> {- 1, 1}" using dd(1) by auto
    from wrap_once_neighbor [OF W x this] same show False by simp
  next
    assume "dy \<noteq> 0"
    then have "dy \<in> {- 1, 1}" using dd(2) by auto
    from wrap_once_neighbor [OF H y this] same show False by simp
  qed
qed

lemma live_neighbors_update_center:
  assumes "2 \<le> W" "2 \<le> H" "0 \<le> x" "x < W" "0 \<le> y" "y < H"
  shows "live_neighbors (world[nat (y * W + x) := v]) W H x y = live_neighbors world W H x y"
proof -
  have "filter (\<lambda>(dx, dy). world[nat (y * W + x) := v] ! torus_index W H (x + dx) (y + dy) = 1) moore
      = filter (\<lambda>(dx, dy). world ! torus_index W H (x + dx) (y + dy) = 1) moore"
  proof (rule filter_cong [OF refl])
    fix p assume p: "p \<in> set moore"
    obtain dx dy where [simp]: "p = (dx, dy)" by (cases p)
    from neighbor_index_neq [OF assms, of dx dy] p
    show "(case p of (dx, dy) \<Rightarrow> world[nat (y * W + x) := v] ! torus_index W H (x + dx) (y + dy) = 1)
        = (case p of (dx, dy) \<Rightarrow> world ! torus_index W H (x + dx) (y + dy) = 1)"
      by (simp add: nth_list_update_neq)
  qed
  then show ?thesis by (simp add: live_neighbors_def)
qed

lemma live_neighbors_translate:
  fixes x y W H :: "32 word"
  assumes g: "grid world W H"
    and x: "0 \<le> sint x" "sint x < sint W" and y: "0 \<le> sint y" "sint y < sint H"
  shows "live_neighbors world (sint W) (sint H) (sint x) (sint y)
       = length (filter (\<lambda>(dx, dy).
            world ! unat (translate_to_1D (x + word_of_int dx) (y + word_of_int dy) W H) = 1) moore)"
proof -
  note d = grid_dims [OF g]
  have "filter (\<lambda>(dx, dy). world ! torus_index (sint W) (sint H) (sint x + dx) (sint y + dy) = 1) moore
      = filter (\<lambda>(dx, dy).
            world ! unat (translate_to_1D (x + word_of_int dx) (y + word_of_int dy) W H) = 1) moore"
  proof (rule filter_cong [OF refl])
    fix p assume p: "p \<in> set moore"
    obtain dx dy where [simp]: "p = (dx, dy)" by (cases p)
    from p have dd: "dx \<in> {- 1, 0, 1}" "dy \<in> {- 1, 0, 1}" by (auto simp: moore_def)
    have sx: "sint (x + word_of_int dx) = sint x + dx"
      using dd(1) x d(3) by (auto simp: sint_minus_1 sint_plus_1)
    have sy: "sint (y + word_of_int dy) = sint y + dy"
      using dd(2) y d(4) by (auto simp: sint_minus_1 sint_plus_1)
    have "unat (translate_to_1D (x + word_of_int dx) (y + word_of_int dy) W H)
        = torus_index (sint W) (sint H) (sint x + dx) (sint y + dy)"
      using unat_translate_to_1D(1) [OF g, of "x + word_of_int dx" "y + word_of_int dy"]
        sx sy dd x y by auto
    then show "(case p of (dx, dy) \<Rightarrow>
            world ! torus_index (sint W) (sint H) (sint x + dx) (sint y + dy) = 1)
        = (case p of (dx, dy) \<Rightarrow>
            world ! unat (translate_to_1D (x + word_of_int dx) (y + word_of_int dy) W H) = 1)"
      by simp
  qed
  then show ?thesis by (simp add: live_neighbors_def)
qed

lemma grid_list_update: "grid world W H \<Longrightarrow> grid (world[i := v]) W H"
  by (simp add: grid_def)

text \<open>
  C7, amended. For a cell \<open>(x, y)\<close> of a grid, \<open>count_live_neighbors\<close> returns a number in
  \<open>[0, 8]\<close>: the number of the eight offsets \<open>(dx, dy)\<close> other than \<open>(0, 0)\<close>, with
  \<open>dx\<close>, \<open>dy\<close> in \<open>{-1, 0, 1}\<close>, for which the cell at the toroidal index of
  \<open>(x + dx, y + dy)\<close> is alive. The offset \<open>(0, 0)\<close> is never examined; when the grid
  has at least two columns and two rows, no offset leads back to the cell itself, and
  the count does not depend on the state of the cell \<open>(x, y)\<close>.
\<close>

theorem count_live_neighbors_moore:
  fixes x y W H :: "32 word"
  assumes "grid world W H"
    and "0 \<le> sint x" and "sint x < sint W" and "0 \<le> sint y" and "sint y < sint H"
  shows "\<exists>n. count_live_neighbors world x y W H = Some n
           \<and> unat n \<le> 8
           \<and> unat n = length (filter (\<lambda>(dx, dy).
                 world ! unat (translate_to_1D (x + word_of_int dx) (y + word_of_int dy) W H) = 1)
                 moore)
           \<and> unat n = live_neighbors world (sint W) (sint H) (sint x) (sint y)
           \<and> (2 \<le> sint W \<and> 2 \<le> sint H \<longrightarrow>
                (\<forall>v. count_live_neighbors (world[unat (translate_to_1D x y W H) := v]) x y W H
                      = Some n))"
proof -
  let ?n = "live_neighbors world (sint W) (sint H) (sint x) (sint y)"
  have n8: "?n \<le> 8" by (rule live_neighbors_le_8)
  have cnt: "count_live_neighbors world x y W H = Some (word_of_nat ?n)"
    by (rule count_live_neighbors_eq [OF assms])
  have un: "unat (word_of_nat ?n :: 32 word) = ?n" by (rule small_word_of_nat [OF n8])
  have centre: "count_live_neighbors (world[unat (translate_to_1D x y W H) := v]) x y W H
      = Some (word_of_nat ?n)" if big: "2 \<le> sint W" "2 \<le> sint H" for v
  proof -
    have idx: "unat (translate_to_1D x y W H) = nat (sint y * sint W + sint x)"
      by (rule unat_translate_to_1D_cell(1) [OF assms])
    have "count_live_neighbors (world[nat (sint y * sint W + sint x) := v]) x y W H
        = Some (word_of_nat (live_neighbors (world[nat (sint y * sint W + sint x) := v])
                  (sint W) (sint H) (sint x) (sint y)))"
      by (rule count_live_neighbors_eq [OF grid_list_update [OF assms(1)] assms(2-5)])
    then show ?thesis
      unfolding idx live_neighbors_update_center [OF big assms(2-5)] .
  qed
  show ?thesis
    using cnt un n8 centre live_neighbors_translate [OF assms] by auto
qed

theorem count_live_neighbors_moore_witness:
  "grid [0, 1, 0, 1, 1, 1, 0, 0, 0] 3 3
   \<and> 0 \<le> sint (1 :: 32 word) \<and> sint (1 :: 32 word) < sint (3 :: 32 word)
   \<and> count_live_neighbors [0, 1, 0, 1, 1, 1, 0, 0, 0] 1 1 3 3 = Some 3
   \<and> (\<exists>n. count_live_neighbors [0, 1, 0, 1, 1, 1, 0, 0, 0] 1 1 3 3 = Some n
         \<and> unat n \<le> 8
         \<and> unat n = live_neighbors [0, 1, 0, 1, 1, 1, 0, 0, 0] (sint (3 :: 32 word))
               (sint (3 :: 32 word)) (sint (1 :: 32 word)) (sint (1 :: 32 word)))"
proof -
  have g: "grid [0, 1, 0, 1, 1, 1, 0, 0, 0] 3 3"
    by (simp add: grid_def word_sless_alt)
  have r: "0 \<le> sint (1 :: 32 word)" "sint (1 :: 32 word) < sint (3 :: 32 word)"
    by simp_all
  have v: "count_live_neighbors [0, 1, 0, 1, 1, 1, 0, 0, 0] 1 1 3 3 = Some 3"
    by code_simp
  from count_live_neighbors_moore [OF g r r] g r v show ?thesis by blast
qed

text \<open>
  On the grid of one cell every offset leads back to the cell itself: alive, it is
  counted eight times.
\<close>

theorem count_live_neighbors_centre_counterexample:
  "grid [1] 1 1 \<and> count_live_neighbors [1] 0 0 1 1 = Some 8
   \<and> count_live_neighbors [0] 0 0 1 1 = Some 0"
  by (simp add: grid_def word_sless_alt count_live_neighbors_def le_range_def count_from_def
      upt_rec translate_to_1D_def load_def word_sle_eq)

section \<open>One cell\<close>

lemma update_cell_Some:
  assumes "update_cell m x y W H = Some m'"
  shows "\<exists>n c. count_live_neighbors (curr_world m) x y W H = Some n
           \<and> load (curr_world m) (translate_to_1D x y W H) = Some c
           \<and> (if c = 1 \<and> (n < 2 \<or> 3 < n)
               then unat (translate_to_1D x y W H) < length (next_world m)
                  \<and> m' = m\<lparr>next_world := (next_world m)[unat (translate_to_1D x y W H) := 0],
                           written := written m @ [unat (translate_to_1D x y W H)]\<rparr>
               else if n = 3
               then unat (translate_to_1D x y W H) < length (next_world m)
                  \<and> m' = m\<lparr>next_world := (next_world m)[unat (translate_to_1D x y W H) := 1],
                           written := written m @ [unat (translate_to_1D x y W H)]\<rparr>
               else m' = m)"
  using assms
  by (auto simp: update_cell_def Let_def store_next_def store_def
      split: option.splits if_splits)


lemma updated_idem:
  "updated snapshot W H (updated snapshot W H old i) i = updated snapshot W H old i"
  by (auto simp: updated_def Let_def)

lemma cell_div_mod:
  fixes W :: int
  assumes "0 \<le> x" "x < W" "0 \<le> y"
  shows "int (nat (y * W + x)) mod W = x" "int (nat (y * W + x)) div W = y"
proof -
  have "0 \<le> y * W + x" using assms by simp
  then have i: "int (nat (y * W + x)) = y * W + x" by simp
  show "int (nat (y * W + x)) mod W = x" unfolding i using assms by simp
  show "int (nat (y * W + x)) div W = y" unfolding i using assms by (simp add: div_pos_pos_trivial)
qed

text \<open>One call of \<^verbatim>\<open>update_cell\<close>, as an update of the list.\<close>

lemma update_cell_step:
  fixes x y W H :: "32 word"
  assumes g: "grid (curr_world m) W H"
    and len: "length (next_world m) = length (curr_world m)"
    and x: "0 \<le> sint x" "sint x < sint W" and y: "0 \<le> sint y" "sint y < sint H"
  defines "i \<equiv> nat (sint y * sint W + sint x)"
  shows "\<exists>ws. update_cell m x y W H
            = Some (m\<lparr>next_world :=
                        (next_world m)[i := updated (curr_world m) (sint W) (sint H) (next_world m ! i) i],
                      written := written m @ ws\<rparr>)
           \<and> set ws \<subseteq> {i}"
proof -
  let ?n = "live_neighbors (curr_world m) (sint W) (sint H) (sint x) (sint y)"
  have dm: "int i mod sint W = sint x" "int i div sint W = sint y"
    unfolding i_def using cell_div_mod [OF x y(1)] by simp_all
  have u: "updated (curr_world m) (sint W) (sint H) old i =
      (if curr_world m ! i = 1 \<and> (?n < 2 \<or> 3 < ?n) then 0 else if ?n = 3 then 1 else old)" for old
    by (simp only: updated_def Let_def dm)
  note upd = update_cell_eq [OF g len x y, folded i_def]
  consider (die) "curr_world m ! i = 1 \<and> (?n < 2 \<or> 3 < ?n)"
    | (born) "\<not> (curr_world m ! i = 1 \<and> (?n < 2 \<or> 3 < ?n))" "?n = 3"
    | (keep) "\<not> (curr_world m ! i = 1 \<and> (?n < 2 \<or> 3 < ?n))" "?n \<noteq> 3"
    by blast
  then show ?thesis
  proof cases
    case die
    have "update_cell m x y W H
        = Some (m\<lparr>next_world := (next_world m)[i := 0], written := written m @ [i]\<rparr>)"
      by (subst upd) (use die in simp)
    moreover have "updated (curr_world m) (sint W) (sint H) (next_world m ! i) i = 0"
      by (subst u) (use die in simp)
    ultimately show ?thesis by (intro exI [of _ "[i]"]) simp
  next
    case born
    have "update_cell m x y W H
        = Some (m\<lparr>next_world := (next_world m)[i := 1], written := written m @ [i]\<rparr>)"
      by (subst upd) (use born in simp)
    moreover have "updated (curr_world m) (sint W) (sint H) (next_world m ! i) i = 1"
      by (subst u) (use born in simp)
    ultimately show ?thesis by (intro exI [of _ "[i]"]) simp
  next
    case keep
    have "update_cell m x y W H = Some m"
      by (subst upd) (simp only: keep if_False)
    moreover have "updated (curr_world m) (sint W) (sint H) (next_world m ! i) i = next_world m ! i"
      by (subst u) (simp only: keep if_False)
    ultimately show ?thesis by (intro exI [of _ "[]"]) simp
  qed
qed

text \<open>
  C10. Every call of \<open>update_cell\<close> that stays inside the two grids leaves the
  snapshot \<open>curr_world\<close> as it is and changes the live grid \<open>next_world\<close> at most at the
  index of the cell, with at most one store, to that index. When the cell is alive in
  the snapshot with two live neighbours, or not alive with a number of live neighbours
  other than three, there is no store and the memory is unchanged; when it is alive
  with three live neighbours, 1 is stored at its index. A call on a cell of a grid does
  stay inside the grids.
\<close>

theorem update_cell_frame:
  fixes x y W H :: "32 word"
  shows "(\<forall>m'. update_cell m x y W H = Some m' \<longrightarrow>
           (\<exists>n c. count_live_neighbors (curr_world m) x y W H = Some n
             \<and> load (curr_world m) (translate_to_1D x y W H) = Some c
             \<and> curr_world m' = curr_world m
             \<and> length (next_world m') = length (next_world m)
             \<and> (\<forall>j. j \<noteq> unat (translate_to_1D x y W H) \<longrightarrow> next_world m' ! j = next_world m ! j)
             \<and> (written m' = written m \<or> written m' = written m @ [unat (translate_to_1D x y W H)])
             \<and> ((c = 1 \<and> n = 2) \<or> (c \<noteq> 1 \<and> n \<noteq> 3) \<longrightarrow> m' = m)
             \<and> (c = 1 \<and> n = 3 \<longrightarrow>
                   m' = m\<lparr>next_world := (next_world m)[unat (translate_to_1D x y W H) := 1],
                          written := written m @ [unat (translate_to_1D x y W H)]\<rparr>)))
       \<and> (grid (curr_world m) W H \<and> length (next_world m) = length (curr_world m)
            \<and> 0 \<le> sint x \<and> sint x < sint W \<and> 0 \<le> sint y \<and> sint y < sint H
          \<longrightarrow> (\<exists>m'. update_cell m x y W H = Some m'))"
proof (intro conjI allI impI)
  fix m' assume "update_cell m x y W H = Some m'"
  from update_cell_Some [OF this] obtain n c where
    cnt: "count_live_neighbors (curr_world m) x y W H = Some n"
    and ld: "load (curr_world m) (translate_to_1D x y W H) = Some c"
    and r: "if c = 1 \<and> (n < 2 \<or> 3 < n)
               then unat (translate_to_1D x y W H) < length (next_world m)
                  \<and> m' = m\<lparr>next_world := (next_world m)[unat (translate_to_1D x y W H) := 0],
                           written := written m @ [unat (translate_to_1D x y W H)]\<rparr>
               else if n = 3
               then unat (translate_to_1D x y W H) < length (next_world m)
                  \<and> m' = m\<lparr>next_world := (next_world m)[unat (translate_to_1D x y W H) := 1],
                           written := written m @ [unat (translate_to_1D x y W H)]\<rparr>
               else m' = m"
    by blast
  have "curr_world m' = curr_world m
      \<and> length (next_world m') = length (next_world m)
      \<and> (\<forall>j. j \<noteq> unat (translate_to_1D x y W H) \<longrightarrow> next_world m' ! j = next_world m ! j)
      \<and> (written m' = written m \<or> written m' = written m @ [unat (translate_to_1D x y W H)])
      \<and> ((c = 1 \<and> n = 2) \<or> (c \<noteq> 1 \<and> n \<noteq> 3) \<longrightarrow> m' = m)
      \<and> (c = 1 \<and> n = 3 \<longrightarrow>
             m' = m\<lparr>next_world := (next_world m)[unat (translate_to_1D x y W H) := 1],
                    written := written m @ [unat (translate_to_1D x y W H)]\<rparr>)"
    using r by (auto split: if_splits)
  then show "\<exists>n c. count_live_neighbors (curr_world m) x y W H = Some n
             \<and> load (curr_world m) (translate_to_1D x y W H) = Some c
             \<and> curr_world m' = curr_world m
             \<and> length (next_world m') = length (next_world m)
             \<and> (\<forall>j. j \<noteq> unat (translate_to_1D x y W H) \<longrightarrow> next_world m' ! j = next_world m ! j)
             \<and> (written m' = written m \<or> written m' = written m @ [unat (translate_to_1D x y W H)])
             \<and> ((c = 1 \<and> n = 2) \<or> (c \<noteq> 1 \<and> n \<noteq> 3) \<longrightarrow> m' = m)
             \<and> (c = 1 \<and> n = 3 \<longrightarrow>
                   m' = m\<lparr>next_world := (next_world m)[unat (translate_to_1D x y W H) := 1],
                          written := written m @ [unat (translate_to_1D x y W H)]\<rparr>)"
    using cnt ld by blast
next
  assume a: "grid (curr_world m) W H \<and> length (next_world m) = length (curr_world m)
            \<and> 0 \<le> sint x \<and> sint x < sint W \<and> 0 \<le> sint y \<and> sint y < sint H"
  then have "\<exists>ws. update_cell m x y W H
            = Some (m\<lparr>next_world :=
                        (next_world m)[nat (sint y * sint W + sint x) :=
                           updated (curr_world m) (sint W) (sint H)
                             (next_world m ! nat (sint y * sint W + sint x))
                             (nat (sint y * sint W + sint x))],
                      written := written m @ ws\<rparr>)
           \<and> set ws \<subseteq> {nat (sint y * sint W + sint x)}"
    by (intro update_cell_step) simp_all
  then show "\<exists>m'. update_cell m x y W H = Some m'" by blast
qed

theorem update_cell_frame_witness:
  "update_cell example_memory 1 1 3 3
     = Some (example_memory\<lparr>next_world := example_grid[4 := 1], written := [4]\<rparr>)
   \<and> grid (curr_world example_memory) 3 3
   \<and> length (next_world example_memory) = length (curr_world example_memory)
   \<and> 0 \<le> sint (1 :: 32 word) \<and> sint (1 :: 32 word) < sint (3 :: 32 word)
   \<and> (\<exists>m'. update_cell example_memory 1 1 3 3 = Some m')
   \<and> curr_world (example_memory\<lparr>next_world := example_grid[4 := 1], written := [4]\<rparr>)
       = curr_world example_memory
   \<and> next_world (example_memory\<lparr>next_world := example_grid[4 := 1], written := [4]\<rparr>) ! 0
       = next_world example_memory ! 0"
proof -
  have g: "grid (curr_world example_memory) 3 3"
    by (simp add: example_memory_def example_grid_def grid_def word_sless_alt)
  have l: "length (next_world example_memory) = length (curr_world example_memory)"
    by (simp add: example_memory_def)
  have r: "0 \<le> sint (1 :: 32 word)" "sint (1 :: 32 word) < sint (3 :: 32 word)"
    by simp_all
  have v: "update_cell example_memory 1 1 3 3
      = Some (example_memory\<lparr>next_world := example_grid[4 := 1], written := [4]\<rparr>)"
    by code_simp
  note t = update_cell_frame [of example_memory 1 1 3 3]
  have d: "\<exists>m'. update_cell example_memory 1 1 3 3 = Some m'"
    by (rule mp [OF conjunct2 [OF t]]) (intro conjI g l r)
  have i: "(0 :: nat) \<noteq> unat (translate_to_1D 1 1 3 3 :: 32 word)"
    by (simp add: translate_to_1D_def word_sless_alt word_sle_eq)
  from mp [OF spec [OF conjunct1 [OF t]] v] i
  have f: "curr_world (example_memory\<lparr>next_world := example_grid[4 := 1], written := [4]\<rparr>)
       = curr_world example_memory
   \<and> next_world (example_memory\<lparr>next_world := example_grid[4 := 1], written := [4]\<rparr>) ! 0
       = next_world example_memory ! 0"
    by blast
  from v g l r d f show ?thesis by (intro conjI) blast+
qed

text \<open>
  C1, amended. When the live grid holds, at the index of a cell \<open>(x, y)\<close>, the state that
  the snapshot holds there, then after \<open>update_cell\<close> the cell is alive in the live grid
  exactly when the rule B3/S23 says so for its state in the snapshot and the number
  \<open>n\<close> of its live neighbours in the snapshot: alive with \<open>n < 2\<close> or \<open>n > 3\<close> becomes
  dead, alive with \<open>n\<close> in \<open>{2, 3}\<close> stays alive, dead with \<open>n = 3\<close> becomes alive, dead
  otherwise stays dead.
\<close>

theorem update_cell_rule:
  fixes x y W H :: "32 word"
  assumes "grid (curr_world m) W H"
    and "length (next_world m) = length (curr_world m)"
    and "0 \<le> sint x" and "sint x < sint W" and "0 \<le> sint y" and "sint y < sint H"
    and "next_world m ! unat (translate_to_1D x y W H)
          = curr_world m ! unat (translate_to_1D x y W H)"
  shows "\<exists>m' n.
           update_cell m x y W H = Some m'
         \<and> count_live_neighbors (curr_world m) x y W H = Some n
         \<and> (next_world m' ! unat (translate_to_1D x y W H) = 1)
             = rule (curr_world m ! unat (translate_to_1D x y W H) = 1) (unat n)"
proof -
  let ?i = "nat (sint y * sint W + sint x)"
  let ?n = "live_neighbors (curr_world m) (sint W) (sint H) (sint x) (sint y)"
  note idx = unat_translate_to_1D_cell [OF assms(1,3-6)]
  have n8: "?n \<le> 8" by (rule live_neighbors_le_8)
  have cnt: "count_live_neighbors (curr_world m) x y W H = Some (word_of_nat ?n)"
    by (rule count_live_neighbors_eq [OF assms(1,3-6)])
  have un: "unat (word_of_nat ?n :: 32 word) = ?n" by (rule small_word_of_nat [OF n8])
  have same: "next_world m ! ?i = curr_world m ! ?i" using assms(7) idx(1) by simp
  have i: "?i < length (next_world m)" using idx(2) assms(2) by simp
  have "\<exists>m'. update_cell m x y W H = Some m'
        \<and> (next_world m' ! ?i = 1) = rule (curr_world m ! ?i = 1) ?n"
    using update_cell_eq [OF assms(1-6)] same i by (auto simp: rule_def)
  then show ?thesis using cnt un idx(1) by auto
qed

theorem update_cell_rule_witness:
  "grid (curr_world example_memory) 3 3
   \<and> length (next_world example_memory) = length (curr_world example_memory)
   \<and> 0 \<le> sint (1 :: 32 word) \<and> sint (1 :: 32 word) < sint (3 :: 32 word)
   \<and> next_world example_memory ! unat (translate_to_1D 1 1 3 3 :: 32 word)
       = curr_world example_memory ! unat (translate_to_1D 1 1 3 3 :: 32 word)
   \<and> (\<exists>m' n. update_cell example_memory 1 1 3 3 = Some m'
         \<and> count_live_neighbors (curr_world example_memory) 1 1 3 3 = Some n
         \<and> (next_world m' ! unat (translate_to_1D 1 1 3 3 :: 32 word) = 1)
             = rule (curr_world example_memory ! unat (translate_to_1D 1 1 3 3 :: 32 word) = 1)
                 (unat n))"
proof -
  have g: "grid (curr_world example_memory) 3 3"
    by (simp add: example_memory_def example_grid_def grid_def word_sless_alt)
  have l: "length (next_world example_memory) = length (curr_world example_memory)"
    by (simp add: example_memory_def)
  have r: "0 \<le> sint (1 :: 32 word)" "sint (1 :: 32 word) < sint (3 :: 32 word)"
    by simp_all
  have s: "next_world example_memory ! unat (translate_to_1D 1 1 3 3 :: 32 word)
      = curr_world example_memory ! unat (translate_to_1D 1 1 3 3 :: 32 word)"
    by (simp add: example_memory_def)
  from update_cell_rule [OF g l r r s] g l r s show ?thesis by blast
qed

text \<open>
  Without that condition the claim fails: the cell \<open>(1, 0)\<close> is alive in the snapshot
  with two live neighbours, the rule keeps it alive, and \<open>update_cell\<close> stores nothing, so
  the cell stays as dead as the live grid had it. In a turn of the simulation the
  condition holds at every call, since the snapshot has just been copied from the live
  grid and each cell is visited once.
\<close>

theorem update_cell_rule_counterexample:
  "update_cell stale_memory 1 0 3 3 = Some stale_memory
   \<and> count_live_neighbors (curr_world stale_memory) 1 0 3 3 = Some 2
   \<and> curr_world stale_memory ! unat (translate_to_1D 1 0 3 3 :: 32 word) = 1
   \<and> rule True (unat (2 :: 32 word))
   \<and> next_world stale_memory ! unat (translate_to_1D 1 0 3 3 :: 32 word) \<noteq> 1"
proof -
  have "update_cell stale_memory 1 0 3 3 = Some stale_memory"
    by code_simp
  moreover have "count_live_neighbors (curr_world stale_memory) 1 0 3 3 = Some 2"
    by code_simp
  moreover have "unat (translate_to_1D 1 0 3 3 :: 32 word) = 1"
    by code_simp
  ultimately show ?thesis
    by (simp add: stale_memory_def rule_def)
qed


section \<open>The partition of the rows\<close>

lemma sint_word_of_nat:
  "n < 2 ^ 31 \<Longrightarrow> sint (word_of_nat n :: 32 word) = int n"
  using sint_of_int_32 [of "int n"] by simp

lemma sless_word_of_nat:
  "n < 2 ^ 31 \<Longrightarrow> 0 <s (word_of_nat n :: 32 word) \<longleftrightarrow> 0 < n"
  by (simp add: word_sless_alt sint_word_of_nat)

lemma word_of_nat_sint:
  "0 \<le> sint (w :: 32 word) \<Longrightarrow> word_of_nat (nat (sint w)) = w"
  by simp

lemma c_div_pos:
  assumes "0 < sint a" "0 < sint b"
  shows "c_div a b = word_of_nat (nat (sint a) div nat (sint b))"
proof -
  have "sint a sdiv sint b = sint a div sint b"
    using assms by (simp add: signed_divide_int_def)
  also have "\<dots> = int (nat (sint a) div nat (sint b))"
    using assms by (simp add: zdiv_int)
  finally show ?thesis by (simp add: c_div_def)
qed

lemma c_mod_pos:
  assumes "0 < sint a" "0 < sint b"
  shows "c_mod a b = word_of_nat (nat (sint a) mod nat (sint b))"
proof -
  have "sint a smod sint b = sint a mod sint b"
    using assms by (simp add: signed_modulo_int_def)
  also have "\<dots> = int (nat (sint a) mod nat (sint b))"
    using assms by (simp add: zmod_int)
  finally show ?thesis by (simp add: c_mod_def)
qed

lemma length_count_from [simp]: "length (count_from lo n) = n"
  by (simp add: count_from_def)

lemma nth_count_from: "k < n \<Longrightarrow> count_from lo n ! k = lo + word_of_nat k"
  by (simp add: count_from_def)

lemma count_from_of_nat:
  "count_from (word_of_nat a) n = map word_of_nat [a ..< a + n]"
  by (rule nth_equalityI) (simp_all add: count_from_def add.commute)

lemma length_fill_td [simp]:
  "length (fill_td ids remainder cur rpt nt w h) = length ids"
  by (induction ids arbitrary: remainder cur) (simp_all add: Let_def)

text \<open>The entry that the loop of \<^verbatim>\<open>run_threads\<close> writes for its \<open>k\<close>-th thread.\<close>

lemma fill_td_nth:
  assumes "k < length ids" "nr < 2 ^ 31"
  shows "fill_td ids (word_of_nat nr) cur rpt nt w h ! k =
           \<lparr>td_id = ids ! k, td_width = w, td_height = h, td_num_turns = nt,
            td_start_row = cur + word_of_nat k * rpt + word_of_nat (min k nr),
            td_end_row = cur + word_of_nat k * rpt + word_of_nat (min k nr) + rpt
                           - (if k < nr then 0 else 1)\<rparr>"
  using assms
proof (induction ids arbitrary: k nr cur)
  case Nil
  then show ?case by simp
next
  case (Cons i ids)
  show ?case
  proof (cases "0 < nr")
    case True
    then have pos: "0 <s (word_of_nat nr :: 32 word)"
      using Cons.prems(2) by (simp add: sless_word_of_nat)
    have dec: "(word_of_nat nr :: 32 word) - 1 = word_of_nat (nr - 1)"
      using True by (simp add: of_nat_diff)
    show ?thesis
    proof (cases k)
      case 0
      then show ?thesis using pos True by (simp add: Let_def)
    next
      case (Suc k')
      then have k': "k' < length ids" "nr - 1 < 2 ^ 31" using Cons.prems by simp_all
      have m: "min (Suc k') nr = Suc (min k' (nr - 1))" using True by (cases nr) simp_all
      have lt: "k' < nr - 1 \<longleftrightarrow> Suc k' < nr" using True by auto
      have "fill_td (i # ids) (word_of_nat nr) cur rpt nt w h ! k
          = fill_td ids (word_of_nat (nr - 1)) (cur + rpt + 1) rpt nt w h ! k'"
        using pos Suc by (simp add: Let_def dec)
      also note Cons.IH [OF k', of "cur + rpt + 1"]
      finally have "fill_td (i # ids) (word_of_nat nr) cur rpt nt w h ! k =
    \<lparr>td_id = ids ! k', td_width = w, td_height = h, td_num_turns = nt,
       td_start_row =
         cur + rpt + 1 + word_of_nat k' * rpt + word_of_nat (min k' (nr - 1)),
       td_end_row =
         cur + rpt + 1 + word_of_nat k' * rpt + word_of_nat (min k' (nr - 1)) +
         rpt -
         (if k' < nr - 1 then 0 else 1)\<rparr>" .
      moreover have "cur + rpt + 1 + word_of_nat k' * rpt + word_of_nat (min k' (nr - 1))
          = cur + word_of_nat (Suc k') * rpt + word_of_nat (min (Suc k') nr)"
        unfolding m by (simp add: algebra_simps)
      ultimately show ?thesis
        unfolding Suc lt by simp
    qed
  next
    case False
    then have npos: "\<not> 0 <s (word_of_nat nr :: 32 word)" "nr = 0"
      by (simp_all add: word_sless_alt)
    show ?thesis
    proof (cases k)
      case 0
      then show ?thesis using npos by (simp add: Let_def)
    next
      case (Suc k')
      then have k': "k' < length ids" "(0::nat) < 2 ^ 31" using Cons.prems by simp_all
      have "fill_td (i # ids) (word_of_nat nr) cur rpt nt w h ! k
          = fill_td ids (word_of_nat 0) (cur + rpt) rpt nt w h ! k'"
        using npos Suc by (simp add: Let_def)
      also note Cons.IH [OF k', of "cur + rpt"]
      finally have "fill_td (i # ids) (word_of_nat nr) cur rpt nt w h ! k =
    \<lparr>td_id = ids ! k', td_width = w, td_height = h, td_num_turns = nt,
       td_start_row = cur + rpt + word_of_nat k' * rpt + word_of_nat (min k' 0),
       td_end_row =
         cur + rpt + word_of_nat k' * rpt + word_of_nat (min k' 0) + rpt -
         (if k' < 0 then 0 else 1)\<rparr>" .
      moreover have "cur + rpt + word_of_nat k' * rpt = cur + word_of_nat (Suc k') * rpt"
        by (simp add: algebra_simps)
      ultimately show ?thesis
        unfolding Suc npos(2) by simp
    qed
  qed
qed

lemma band_start_Suc: "band_start b r (Suc k) = band_start b r k + band_size b r k"
  by (simp add: band_start_def band_size_def min_def)

lemma band_start_mono: "j \<le> k \<Longrightarrow> band_start b r j \<le> band_start b r k"
  by (induction k) (auto simp: band_start_Suc le_Suc_eq)

lemma band_start_total:
  "0 < T \<Longrightarrow> band_start (H div T) (H mod T) T = H"
proof -
  assume "0 < T"
  then have "H mod T < T" by simp
  then have "min T (H mod T) = H mod T" by simp
  then show ?thesis by (simp add: band_start_def)
qed

lemma concat_upt_chain:
  assumes "\<And>k. k < n \<Longrightarrow> S k \<le> S (Suc k)"
  shows "concat (map (\<lambda>k. [S k ..< S (Suc k)]) [0..<n]) = [S 0 ..< S n]"
  using assms
proof (induction n)
  case 0
  then show ?case by simp
next
  case (Suc n)
  have mono: "S 0 \<le> S n" using Suc.prems
    by (induction n) (auto intro: order_trans simp: less_Suc_eq)
  have "[S 0 ..< S n] @ [S n ..< S (Suc n)] = [S 0 ..< S (Suc n)]"
    using mono Suc.prems [of n] upt_add_eq_append [of "S 0" "S n" "S (Suc n) - S n"] by simp
  then show ?case using Suc by simp
qed

lemma partition_rows_length:
  "length (partition_rows T nt W H) = nat (sint T)"
  by (simp add: partition_rows_def lt_range_def)

lemma partition_rows_nth:
  assumes T: "0 <s T" and H: "0 <s H" and k: "k < nat (sint T)"
  defines "b \<equiv> nat (sint H) div nat (sint T)" and "r \<equiv> nat (sint H) mod nat (sint T)"
  shows "partition_rows T nt W H ! k =
           \<lparr>td_id = word_of_nat k, td_width = W, td_height = H, td_num_turns = nt,
            td_start_row = word_of_nat (band_start b r k),
            td_end_row = word_of_nat (band_start b r k + band_size b r k) - 1\<rparr>"
proof -
  have pT: "0 < sint T" and pH: "0 < sint H" using T H by (simp_all add: word_sless_alt)
  have "r < nat (sint T)" unfolding r_def using pT by simp
  also have "\<dots> < 2 ^ 31" using sint_bounds_32(2) [of T] pT by simp
  finally have r31: "r < 2 ^ 31" .
  have ids: "lt_range 0 T = count_from 0 (nat (sint T))" by (simp add: lt_range_def)
  have "partition_rows T nt W H ! k
      = fill_td (count_from 0 (nat (sint T))) (word_of_nat r) 0 (word_of_nat b) nt W H ! k"
    unfolding partition_rows_def Let_def ids c_mod_pos [OF pH pT] c_div_pos [OF pH pT] b_def r_def ..
  also have "\<dots> = \<lparr>td_id = count_from 0 (nat (sint T)) ! k, td_width = W, td_height = H,
            td_num_turns = nt,
            td_start_row = 0 + word_of_nat k * word_of_nat b + word_of_nat (min k r),
            td_end_row = 0 + word_of_nat k * word_of_nat b + word_of_nat (min k r) + word_of_nat b
                           - (if k < r then 0 else 1)\<rparr>"
    by (rule fill_td_nth) (use k r31 in simp_all)
  also have "count_from 0 (nat (sint T)) ! k = (word_of_nat k :: 32 word)"
    using k by (simp add: nth_count_from)
  also have "0 + word_of_nat k * word_of_nat b + word_of_nat (min k r)
      = (word_of_nat (band_start b r k) :: 32 word)"
    by (simp add: band_start_def)
  also have "word_of_nat (band_start b r k) + word_of_nat b - (if k < r then 0 else 1)
      = (word_of_nat (band_start b r k + band_size b r k) - 1 :: 32 word)"
    by (simp add: band_size_def)
  finally show ?thesis .
qed

lemma band_rows_partition:
  assumes T: "0 <s T" and H: "0 <s H" and k: "k < nat (sint T)"
  defines "b \<equiv> nat (sint H) div nat (sint T)" and "r \<equiv> nat (sint H) mod nat (sint T)"
  shows "band_rows (partition_rows T nt W H ! k)
          = map word_of_nat [band_start b r k ..< band_start b r (Suc k)]"
    and "sint (td_start_row (partition_rows T nt W H ! k)) = int (band_start b r k)"
    and "sint (td_end_row (partition_rows T nt W H ! k)) = int (band_start b r (Suc k)) - 1"
    and "band_start b r (Suc k) \<le> nat (sint H)"
proof -
  have pT: "0 < sint T" and pH: "0 < sint H" using T H by (simp_all add: word_sless_alt)
  have "band_start b r (Suc k) \<le> band_start b r (nat (sint T))"
    using k by (intro band_start_mono) simp
  also have "\<dots> = nat (sint H)"
    unfolding b_def r_def using pT by (intro band_start_total) simp
  finally show le: "band_start b r (Suc k) \<le> nat (sint H)" .
  have H31: "nat (sint H) < 2 ^ 31" using sint_bounds_32(2) [of H] pH by simp
  have e31: "band_start b r (Suc k) < 2 ^ 31" using le H31 by simp
  have s31: "band_start b r k < 2 ^ 31"
    using band_start_mono [of k "Suc k" b r] e31 by simp
  note nth = partition_rows_nth [OF T H k, folded b_def r_def]
  have st_w: "td_start_row (partition_rows T nt W H ! k) = word_of_nat (band_start b r k)"
    by (simp only: nth ThreadData.select_convs)
  have en_w: "td_end_row (partition_rows T nt W H ! k) = word_of_nat (band_start b r (Suc k)) - 1"
    by (simp only: nth band_start_Suc ThreadData.select_convs)
  show st: "sint (td_start_row (partition_rows T nt W H ! k)) = int (band_start b r k)"
    unfolding st_w by (rule sint_word_of_nat [OF s31])
  have "sint (word_of_nat (band_start b r (Suc k)) - 1 :: 32 word)
      = sint (word_of_nat (band_start b r (Suc k)) :: 32 word) - 1"
    by (rule sint_minus_1) (simp only: sint_word_of_nat [OF e31], simp)
  then show en: "sint (td_end_row (partition_rows T nt W H ! k)) = int (band_start b r (Suc k)) - 1"
    unfolding en_w by (simp only: sint_word_of_nat [OF e31])
  have sz: "nat (int (band_start b r (Suc k)) - 1 - int (band_start b r k) + 1) = band_size b r k"
    by (simp add: band_start_Suc)
  have "band_rows (partition_rows T nt W H ! k)
      = count_from (word_of_nat (band_start b r k)) (band_size b r k)"
    by (simp only: band_rows_def le_range_def st en sz, simp only: st_w)
  also have "\<dots> = map word_of_nat [band_start b r k ..< band_start b r k + band_size b r k]"
    by (rule count_from_of_nat)
  finally show "band_rows (partition_rows T nt W H ! k)
          = map word_of_nat [band_start b r k ..< band_start b r (Suc k)]"
    unfolding band_start_Suc .
qed

lemma band_rows_concat:
  assumes T: "0 <s T" and H: "0 <s H"
  shows "concat (map band_rows (partition_rows T nt W H)) = map word_of_nat [0 ..< nat (sint H)]"
proof -
  define b r where "b = nat (sint H) div nat (sint T)" and "r = nat (sint H) mod nat (sint T)"
  have pT: "0 < sint T" using T by (simp add: word_sless_alt)
  let ?td = "partition_rows T nt W H"
  have each: "band_rows (?td ! k) = map word_of_nat [band_start b r k ..< band_start b r (Suc k)]"
    if "k < nat (sint T)" for k
    using band_rows_partition(1) [OF T H that] unfolding b_def r_def .
  have "map band_rows ?td = map (\<lambda>k. band_rows (?td ! k)) [0 ..< length ?td]"
    by (rule nth_equalityI) simp_all
  also have "\<dots> = map (\<lambda>k. map word_of_nat [band_start b r k ..< band_start b r (Suc k)])
                   [0 ..< nat (sint T)]"
    unfolding partition_rows_length
    by (rule map_cong [OF refl]) (simp only: each set_upt atLeastLessThan_iff)
  also have "concat \<dots>
      = map word_of_nat (concat (map (\<lambda>k. [band_start b r k ..< band_start b r (Suc k)])
                                     [0 ..< nat (sint T)]))"
    unfolding map_concat map_map comp_def ..
  also have "concat (map (\<lambda>k. [band_start b r k ..< band_start b r (Suc k)]) [0 ..< nat (sint T)])
      = [band_start b r 0 ..< band_start b r (nat (sint T))]"
    by (rule concat_upt_chain) (simp add: band_start_mono)
  also have "band_start b r (nat (sint T)) = nat (sint H)"
    unfolding b_def r_def using pT by (intro band_start_total) simp
  finally show ?thesis by (simp add: band_start_def)
qed

lemma band_start_sum: "band_start b r k = (\<Sum>j<k. band_size b r j)"
  by (induction k) (simp_all add: band_start_Suc, simp add: band_start_def)

text \<open>
  C2. For \<open>H \<ge> 1\<close> rows and \<open>T \<ge> 1\<close> workers, with \<open>b = H div T\<close> and \<open>r = H mod T\<close>,
  \<open>run_threads\<close> fills one entry for each of the workers \<open>0..T-1\<close>; the rows that the
  workers visit, worker after worker, are \<open>0, 1, .., H-1\<close>, each once and in increasing
  order; worker \<open>k\<close> starts at the number of rows given to the workers before it and
  gets \<open>b + 1\<close> rows when \<open>k < r\<close> and \<open>b\<close> rows otherwise, so two bands differ by at
  most one row and the larger ones come first.
\<close>

theorem partition_rows_cover:
  assumes "0 <s H" and "0 <s T"
  shows "length (partition_rows T nt W H) = nat (sint T)
       \<and> concat (map band_rows (partition_rows T nt W H)) = map word_of_nat [0 ..< nat (sint H)]
       \<and> (\<forall>k < nat (sint T).
             td_id (partition_rows T nt W H ! k) = word_of_nat k
           \<and> sint (td_start_row (partition_rows T nt W H ! k))
               = int (\<Sum>j<k. band_size (nat (sint H) div nat (sint T)) (nat (sint H) mod nat (sint T)) j)
           \<and> sint (td_end_row (partition_rows T nt W H ! k))
               - sint (td_start_row (partition_rows T nt W H ! k)) + 1
               = (if int k < sint H mod sint T then sint H div sint T + 1 else sint H div sint T)
           \<and> band_rows (partition_rows T nt W H ! k)
               = map word_of_nat
                   [band_start (nat (sint H) div nat (sint T)) (nat (sint H) mod nat (sint T)) k
                    ..< band_start (nat (sint H) div nat (sint T)) (nat (sint H) mod nat (sint T)) (Suc k)])
       \<and> (\<forall>j < nat (sint T). \<forall>k < nat (sint T).
             \<bar>(sint (td_end_row (partition_rows T nt W H ! j))
                 - sint (td_start_row (partition_rows T nt W H ! j)))
              - (sint (td_end_row (partition_rows T nt W H ! k))
                 - sint (td_start_row (partition_rows T nt W H ! k)))\<bar> \<le> 1)"
proof -
  define b r where "b = nat (sint H) div nat (sint T)" and "r = nat (sint H) mod nat (sint T)"
  let ?td = "partition_rows T nt W H"
  have pT: "0 < sint T" and pH: "0 < sint H" using assms by (simp_all add: word_sless_alt)
  have ib: "int b = sint H div sint T" and ir: "int r = sint H mod sint T"
    using pT pH by (simp_all add: b_def r_def zdiv_int zmod_int)
  have size: "sint (td_end_row (?td ! k)) - sint (td_start_row (?td ! k)) + 1
      = (if int k < sint H mod sint T then sint H div sint T + 1 else sint H div sint T)"
    if k: "k < nat (sint T)" for k
    using band_rows_partition(2,3) [OF assms(2,1) k, folded b_def r_def] ib ir
    by (simp add: band_start_Suc band_size_def)
  have each: "td_id (?td ! k) = word_of_nat k
      \<and> sint (td_start_row (?td ! k)) = int (\<Sum>j<k. band_size b r j)
      \<and> sint (td_end_row (?td ! k)) - sint (td_start_row (?td ! k)) + 1
          = (if int k < sint H mod sint T then sint H div sint T + 1 else sint H div sint T)
      \<and> band_rows (?td ! k) = map word_of_nat [band_start b r k ..< band_start b r (Suc k)]"
    if k: "k < nat (sint T)" for k
    using band_rows_partition(1,2) [OF assms(2,1) k, folded b_def r_def] size [OF k]
      partition_rows_nth [OF assms(2,1) k, folded b_def r_def]
    by (simp only: band_start_sum ThreadData.select_convs simp_thms)
  have diff: "\<bar>(sint (td_end_row (?td ! j)) - sint (td_start_row (?td ! j)))
              - (sint (td_end_row (?td ! k)) - sint (td_start_row (?td ! k)))\<bar> \<le> 1"
    if "j < nat (sint T)" "k < nat (sint T)" for j k
    using size [OF that(1)] size [OF that(2)] by (simp split: if_splits)
  show ?thesis
    using partition_rows_length [of T nt W H] band_rows_concat [OF assms(2,1), of nt W] each diff
    unfolding b_def r_def by blast
qed

theorem partition_rows_cover_witness:
  "0 <s (5 :: 32 word) \<and> 0 <s (3 :: 32 word)
   \<and> map (\<lambda>t. (td_id t, td_start_row t, td_end_row t)) (partition_rows 3 20 4 5)
       = [(0, 0, 1), (1, 2, 3), (2, 4, 4)]
   \<and> length (partition_rows 3 20 4 5) = nat (sint (3 :: 32 word))
   \<and> concat (map band_rows (partition_rows 3 20 4 5)) = map word_of_nat [0 ..< nat (sint (5 :: 32 word))]"
proof -
  have h: "0 <s (5 :: 32 word)" "0 <s (3 :: 32 word)" by (simp_all add: word_sless_alt)
  have v: "map (\<lambda>t. (td_id t, td_start_row t, td_end_row t)) (partition_rows 3 20 4 5)
       = [(0, 0, 1), (1, 2, 3), (2, 4, 4)]"
    by code_simp
  from partition_rows_cover [OF h, of 20 4] h v show ?thesis by blast
qed


section \<open>Bands and generations\<close>

text \<open>
  Any sequence of calls on cells of the grid: the live grid ends as a function of the
  set of the cells visited, whatever their order and however often each is visited.
\<close>

lemma update_cells:
  fixes W H :: "32 word"
  assumes g: "grid (curr_world m) W H"
    and len: "length (next_world m) = length (curr_world m)"
    and inr: "\<forall>(y, x) \<in> set ps. 0 \<le> sint x \<and> sint x < sint W \<and> 0 \<le> sint y \<and> sint y < sint H"
  shows "\<exists>ws. for_each (\<lambda>(y, x) m. update_cell m x y W H) ps m
            = Some (m\<lparr>next_world :=
                  map (\<lambda>i. if i \<in> (\<lambda>(y, x). nat (sint y * sint W + sint x)) ` set ps
                           then updated (curr_world m) (sint W) (sint H) (next_world m ! i) i
                           else next_world m ! i) [0 ..< length (next_world m)],
                  written := written m @ ws\<rparr>)
           \<and> set ws \<subseteq> (\<lambda>(y, x). nat (sint y * sint W + sint x)) ` set ps"
  using assms
proof (induction ps arbitrary: m)
  case Nil
  have "map (\<lambda>i. next_world m ! i) [0 ..< length (next_world m)] = next_world m"
    by (rule map_nth)
  then show ?case by (intro exI [of _ "[]"]) simp
next
  case (Cons p ps)
  obtain y x where p: "p = (y, x)" by (cases p)
  let ?idx = "\<lambda>(y, x). nat (sint y * sint W + sint x)"
  let ?c = "curr_world m" and ?nw = "next_world m"
  let ?u = "\<lambda>old i. updated ?c (sint W) (sint H) old i"
  define i0 where "i0 = nat (sint y * sint W + sint x)"
  have r: "0 \<le> sint x" "sint x < sint W" "0 \<le> sint y" "sint y < sint H"
    using Cons.prems(3) p by simp_all
  have i0: "i0 < length ?nw"
    using unat_translate_to_1D_cell(2) [OF Cons.prems(1) r] Cons.prems(2) by (simp add: i0_def)
  from update_cell_step [OF Cons.prems(1,2) r, folded i0_def]
  obtain ws0 where s0: "update_cell m x y W H
        = Some (m\<lparr>next_world := ?nw[i0 := ?u (?nw ! i0) i0], written := written m @ ws0\<rparr>)"
    and w0: "set ws0 \<subseteq> {i0}" by blast
  let ?m1 = "m\<lparr>next_world := ?nw[i0 := ?u (?nw ! i0) i0], written := written m @ ws0\<rparr>"
  have g1: "grid (curr_world ?m1) W H" using Cons.prems(1) by simp
  have l1: "length (next_world ?m1) = length (curr_world ?m1)" using Cons.prems(2) by simp
  have r1: "\<forall>(y, x) \<in> set ps. 0 \<le> sint x \<and> sint x < sint W \<and> 0 \<le> sint y \<and> sint y < sint H"
    using Cons.prems(3) by simp
  from Cons.IH [OF g1 l1 r1]
  obtain ws1 where s1: "for_each (\<lambda>(y, x) m. update_cell m x y W H) ps ?m1
        = Some (?m1\<lparr>next_world :=
              map (\<lambda>i. if i \<in> ?idx ` set ps
                       then updated (curr_world ?m1) (sint W) (sint H) (next_world ?m1 ! i) i
                       else next_world ?m1 ! i) [0 ..< length (next_world ?m1)],
              written := written ?m1 @ ws1\<rparr>)"
    and w1: "set ws1 \<subseteq> ?idx ` set ps" by blast
  have cells: "map (\<lambda>i. if i \<in> ?idx ` set ps
                       then ?u (?nw[i0 := ?u (?nw ! i0) i0] ! i) i
                       else ?nw[i0 := ?u (?nw ! i0) i0] ! i) [0 ..< length ?nw]
      = map (\<lambda>i. if i \<in> ?idx ` set (p # ps) then ?u (?nw ! i) i else ?nw ! i) [0 ..< length ?nw]"
  proof (rule map_cong [OF refl])
    fix i assume "i \<in> set [0 ..< length ?nw]"
    then have i: "i < length ?nw" by simp
    show "(if i \<in> ?idx ` set ps
             then ?u (?nw[i0 := ?u (?nw ! i0) i0] ! i) i
             else ?nw[i0 := ?u (?nw ! i0) i0] ! i)
        = (if i \<in> ?idx ` set (p # ps) then ?u (?nw ! i) i else ?nw ! i)"
    proof (cases "i = i0")
      case True
      then show ?thesis using i0 p by (simp add: i0_def updated_idem)
    next
      case False
      then show ?thesis using p by (simp add: i0_def)
    qed
  qed
  have step: "for_each (\<lambda>(y, x) m. update_cell m x y W H) (p # ps) m
      = for_each (\<lambda>(y, x) m. update_cell m x y W H) ps ?m1"
    using s0 p by simp
  have s1': "for_each (\<lambda>(y, x) m. update_cell m x y W H) ps ?m1
      = Some (m\<lparr>next_world :=
              map (\<lambda>i. if i \<in> ?idx ` set ps
                       then ?u (?nw[i0 := ?u (?nw ! i0) i0] ! i) i
                       else ?nw[i0 := ?u (?nw ! i0) i0] ! i) [0 ..< length ?nw],
              written := written m @ (ws0 @ ws1)\<rparr>)"
    unfolding s1 by simp
  have "for_each (\<lambda>(y, x) m. update_cell m x y W H) (p # ps) m
      = Some (m\<lparr>next_world :=
              map (\<lambda>i. if i \<in> ?idx ` set (p # ps) then ?u (?nw ! i) i else ?nw ! i)
                [0 ..< length ?nw],
              written := written m @ (ws0 @ ws1)\<rparr>)"
    unfolding step s1' cells ..
  moreover have "set (ws0 @ ws1) \<subseteq> ?idx ` set (p # ps)"
    using w0 w1 p by (auto simp: i0_def)
  ultimately show ?case by blast
qed


lemma sint_count_from:
  fixes lo :: "32 word"
  assumes "k < n" "0 \<le> sint lo" "sint lo + int n \<le> 2 ^ 31"
  shows "sint (lo + word_of_nat k) = sint lo + int k"
proof -
  have "lo + word_of_nat k = word_of_int (sint lo + int k)" by simp
  moreover have "sint (word_of_int (sint lo + int k) :: 32 word) = sint lo + int k"
    using assms by (intro sint_of_int_32) simp_all
  ultimately show ?thesis by simp
qed

lemma update_world_cells:
  "update_world m W H s e
     = for_each (\<lambda>(y, x) m. update_cell m x y W H) (List.product (le_range s e) (lt_range 0 W)) m"
  unfolding update_world_def by (rule for_each_product)

lemma le_range_rows:
  fixes s e :: "32 word"
  assumes "0 \<le> sint s" "y \<in> set (le_range s e)"
  shows "sint s \<le> sint y \<and> sint y \<le> sint e"
proof -
  let ?n = "nat (sint e - sint s + 1)"
  from assms(2) obtain k where k: "k < ?n" "y = s + word_of_nat k"
    by (auto simp: le_range_def count_from_def)
  have "sint s + int ?n \<le> 2 ^ 31" using k(1) sint_bounds_32(2) [of e] by simp
  from sint_count_from [OF k(1) assms(1) this] k show ?thesis by simp
qed

lemma le_range_rows_set:
  fixes s e :: "32 word"
  assumes "0 \<le> sint s"
  shows "sint ` set (le_range s e) = {sint s .. sint e}"
proof
  show "sint ` set (le_range s e) \<subseteq> {sint s .. sint e}"
    using le_range_rows [OF assms] by auto
  show "{sint s .. sint e} \<subseteq> sint ` set (le_range s e)"
  proof
    fix v assume v: "v \<in> {sint s .. sint e}"
    let ?n = "nat (sint e - sint s + 1)"
    let ?k = "nat (v - sint s)"
    have k: "?k < ?n" using v by simp
    have "sint s + int ?n \<le> 2 ^ 31" using k sint_bounds_32(2) [of e] by simp
    from sint_count_from [OF k assms this] have a: "sint (s + word_of_nat ?k) = v" using v by simp
    have b: "s + word_of_nat ?k \<in> set (le_range s e)"
      using k by (simp add: le_range_def count_from_def)
    show "v \<in> sint ` set (le_range s e)" using image_eqI [where f = sint, OF a [symmetric] b] .
  qed
qed

lemma lt_range_cols_set:
  fixes W :: "32 word"
  shows "sint ` set (lt_range 0 W) = {0 ..< sint W}"
proof
  let ?n = "nat (sint W)"
  have b: "sint (0 :: 32 word) + int ?n \<le> 2 ^ 31" using sint_bounds_32(2) [of W] by simp
  show "sint ` set (lt_range 0 W) \<subseteq> {0 ..< sint W}"
  proof
    fix v assume "v \<in> sint ` set (lt_range 0 W)"
    then obtain k where k: "k < ?n" "v = sint (0 + word_of_nat k :: 32 word)"
      by (auto simp: lt_range_def count_from_def)
    from sint_count_from [OF k(1) _ b] k show "v \<in> {0 ..< sint W}" by simp
  qed
  show "{0 ..< sint W} \<subseteq> sint ` set (lt_range 0 W)"
  proof
    fix v assume v: "v \<in> {0 ..< sint W}"
    let ?k = "nat v"
    have k: "?k < ?n" using v by simp
    from sint_count_from [OF k _ b] have a: "sint (0 + word_of_nat ?k :: 32 word) = v" using v by simp
    have c: "0 + word_of_nat ?k \<in> set (lt_range 0 W)"
      using k by (simp add: lt_range_def count_from_def)
    show "v \<in> sint ` set (lt_range 0 W)" using image_eqI [where f = sint, OF a [symmetric] c] .
  qed
qed

lemma band_cells_indices:
  fixes W s e :: "32 word"
  assumes "0 \<le> sint s"
  shows "(\<lambda>(y, x). nat (sint y * sint W + sint x)) ` set (List.product (le_range s e) (lt_range 0 W))
       = band_indices (sint W) (sint s) (sint e)"
proof -
  have "(\<lambda>(y, x). nat (sint y * sint W + sint x)) ` set (List.product (le_range s e) (lt_range 0 W))
      = {nat (y * sint W + x) | x y. y \<in> sint ` set (le_range s e) \<and> x \<in> sint ` set (lt_range 0 W)}"
    by (auto simp: image_iff)
  also have "\<dots> = band_indices (sint W) (sint s) (sint e)"
    unfolding le_range_rows_set [OF assms] lt_range_cols_set band_indices_def by auto
  finally show ?thesis .
qed


lemma length_update_on [simp]: "length (update_on I snapshot W H live) = length live"
  by (simp add: update_on_def)

lemma nth_update_on:
  "i < length live \<Longrightarrow>
   update_on I snapshot W H live ! i
     = (if i \<in> I then updated snapshot W H (live ! i) i else live ! i)"
  by (simp add: update_on_def)

lemma update_on_union:
  "update_on J snapshot W H (update_on I snapshot W H live) = update_on (I \<union> J) snapshot W H live"
  by (rule nth_equalityI) (auto simp: nth_update_on updated_idem)

lemma update_on_empty: "update_on {} snapshot W H live = live"
  by (rule nth_equalityI) (auto simp: nth_update_on)

lemma update_on_cong:
  "(\<And>i. i < length live \<Longrightarrow> i \<in> I \<longleftrightarrow> i \<in> J) \<Longrightarrow>
   update_on I snapshot W H live = update_on J snapshot W H live"
  by (rule nth_equalityI) (auto simp: nth_update_on)

lemma update_on_all:
  "{..< length live} \<subseteq> I \<Longrightarrow> update_on I live W H live = life_step W H live"
  by (rule nth_equalityI) (auto simp: nth_update_on life_step_def)

lemma update_world_band:
  fixes W H s e :: "32 word"
  assumes g: "grid (curr_world m) W H"
    and len: "length (next_world m) = length (curr_world m)"
    and band: "0 \<le> sint s" "sint e < sint H"
  shows "\<exists>ws. update_world m W H s e
            = Some (m\<lparr>next_world :=
                  update_on (band_indices (sint W) (sint s) (sint e)) (curr_world m) (sint W) (sint H)
                    (next_world m),
                  written := written m @ ws\<rparr>)
           \<and> set ws \<subseteq> band_indices (sint W) (sint s) (sint e)"
proof -
  let ?ps = "List.product (le_range s e) (lt_range 0 W)"
  have inr: "\<forall>(y, x) \<in> set ?ps. 0 \<le> sint x \<and> sint x < sint W \<and> 0 \<le> sint y \<and> sint y < sint H"
  proof (clarify, intro conjI)
    fix y x assume "(y, x) \<in> set ?ps"
    then have y: "y \<in> set (le_range s e)" and x: "x \<in> set (lt_range 0 W)" by simp_all
    from x have "sint x \<in> {0 ..< sint W}" using lt_range_cols_set [of W] by blast
    then show "0 \<le> sint x" "sint x < sint W" by simp_all
    from le_range_rows [OF band(1) y] band show "0 \<le> sint y" "sint y < sint H" by simp_all
  qed
  from update_cells [OF g len inr]
  show ?thesis
    unfolding update_world_cells band_cells_indices [OF band(1)] update_on_def .
qed


lemma update_phases:
  fixes W H :: "32 word"
  assumes g: "grid (curr_world m) W H"
    and len: "length (next_world m) = length (curr_world m)"
    and bands: "\<forall>t \<in> set ts. td_width t = W \<and> td_height t = H
                  \<and> 0 \<le> sint (td_start_row t) \<and> sint (td_end_row t) < sint H"
  shows "\<exists>ws. for_each update_phase ts m
            = Some (m\<lparr>next_world :=
                  update_on (\<Union>t \<in> set ts. band_indices (sint W) (sint (td_start_row t))
                                            (sint (td_end_row t)))
                    (curr_world m) (sint W) (sint H) (next_world m),
                  written := written m @ ws\<rparr>)
           \<and> set ws \<subseteq> (\<Union>t \<in> set ts. band_indices (sint W) (sint (td_start_row t))
                                        (sint (td_end_row t)))"
  using assms
proof (induction ts arbitrary: m)
  case Nil
  then show ?case by (intro exI [of _ "[]"]) (simp add: update_on_empty)
next
  case (Cons t ts)
  let ?B = "\<lambda>t. band_indices (sint W) (sint (td_start_row t)) (sint (td_end_row t))"
  have t: "td_width t = W" "td_height t = H" "0 \<le> sint (td_start_row t)"
    "sint (td_end_row t) < sint H"
    using Cons.prems(3) by simp_all
  from update_world_band [OF Cons.prems(1,2) t(3,4)]
  obtain ws0 where s0: "update_phase t m
        = Some (m\<lparr>next_world := update_on (?B t) (curr_world m) (sint W) (sint H) (next_world m),
                  written := written m @ ws0\<rparr>)"
    and w0: "set ws0 \<subseteq> ?B t"
    unfolding update_phase_def t(1,2) by blast
  let ?m1 = "m\<lparr>next_world := update_on (?B t) (curr_world m) (sint W) (sint H) (next_world m),
                written := written m @ ws0\<rparr>"
  have g1: "grid (curr_world ?m1) W H" using Cons.prems(1) by simp
  have l1: "length (next_world ?m1) = length (curr_world ?m1)" using Cons.prems(2) by simp
  have b1: "\<forall>t \<in> set ts. td_width t = W \<and> td_height t = H
                  \<and> 0 \<le> sint (td_start_row t) \<and> sint (td_end_row t) < sint H"
    using Cons.prems(3) by simp
  from Cons.IH [OF g1 l1 b1]
  obtain ws1 where s1: "for_each update_phase ts ?m1
        = Some (?m1\<lparr>next_world :=
              update_on (\<Union>t \<in> set ts. ?B t) (curr_world ?m1) (sint W) (sint H) (next_world ?m1),
              written := written ?m1 @ ws1\<rparr>)"
    and w1: "set ws1 \<subseteq> (\<Union>t \<in> set ts. ?B t)" by blast
  have un: "?B t \<union> (\<Union>t \<in> set ts. ?B t) = (\<Union>t \<in> set (t # ts). ?B t)" by simp
  have step: "for_each update_phase (t # ts) m = for_each update_phase ts ?m1"
    using s0 by simp
  have "for_each update_phase (t # ts) m
      = Some (m\<lparr>next_world :=
              update_on (\<Union>t \<in> set (t # ts). ?B t) (curr_world m) (sint W) (sint H) (next_world m),
              written := written m @ (ws0 @ ws1)\<rparr>)"
    unfolding step s1 un [symmetric] by (simp add: update_on_union)
  moreover have "set (ws0 @ ws1) \<subseteq> (\<Union>t \<in> set (t # ts). ?B t)"
    using w0 w1 by auto
  ultimately show ?case by blast
qed

lemma copy_step:
  assumes "n < length xs" "n < length ys"
  shows "(take n xs @ drop n ys)[n := xs ! n] = take (Suc n) xs @ drop (Suc n) ys"
  using assms
  by (simp add: take_Suc_conv_app_nth list_update_append Cons_nth_drop_Suc [symmetric]
      del: Cons_nth_drop_Suc)

lemma count_from_Suc: "count_from lo (Suc n) = count_from lo n @ [lo + word_of_nat n]"
  by (simp add: count_from_def)

lemma copy_loop:
  assumes "n \<le> length (next_world m)" "n \<le> length (curr_world m)" "n < 2 ^ 32"
  shows "for_each (\<lambda>i m.
           case load (next_world m) i of
             None \<Rightarrow> None
           | Some v \<Rightarrow>
               (case store (curr_world m) i v of
                  None \<Rightarrow> None
                | Some c \<Rightarrow> Some (m\<lparr>curr_world := c\<rparr>)))
         (count_from 0 n) m
       = Some (m\<lparr>curr_world := take n (next_world m) @ drop n (curr_world m)\<rparr>)"
  using assms
proof (induction n)
  case 0
  then show ?case by (simp add: count_from_def)
next
  case (Suc n)
  have un: "unat (word_of_nat n :: 32 word) = n"
    using Suc.prems(3) by (simp add: unat_of_nat)
  have ih: "for_each (\<lambda>i m.
           case load (next_world m) i of
             None \<Rightarrow> None
           | Some v \<Rightarrow>
               (case store (curr_world m) i v of
                  None \<Rightarrow> None
                | Some c \<Rightarrow> Some (m\<lparr>curr_world := c\<rparr>)))
         (count_from 0 n) m
       = Some (m\<lparr>curr_world := take n (next_world m) @ drop n (curr_world m)\<rparr>)"
    using Suc by simp
  have n: "n < length (next_world m)" "n < length (curr_world m)" using Suc.prems by simp_all
  show ?case
    unfolding count_from_Suc for_each_append ih
    using n un copy_step [OF n] by (simp add: load_def store_def min_def)
qed


lemma sint_mult_grid:
  assumes "grid w W H"
  shows "sint (W * H) = sint W * sint H"
proof -
  note d = grid_dims [OF assms]
  have "W * H = word_of_int (sint W * sint H)" by (simp add: word_of_int_hom_syms)
  moreover have "0 \<le> sint W * sint H" using d(1,2) by simp
  then have "sint (word_of_int (sint W * sint H) :: 32 word) = sint W * sint H"
    using assms by (intro sint_of_int_32) (simp_all add: grid_def)
  ultimately show ?thesis by simp
qed

lemma copy_phase_leader:
  assumes g: "grid (next_world m) W H"
    and len: "length (curr_world m) = length (next_world m)"
    and t: "td_id t = 0" "td_width t = W" "td_height t = H"
  shows "copy_phase t m = Some (m\<lparr>curr_world := next_world m\<rparr>)"
proof -
  note d = grid_dims [OF g]
  have n: "nat (sint (W * H)) = length (next_world m)"
    using sint_mult_grid [OF g] d(7) by simp
  have r: "lt_range 0 (W * H) = count_from 0 (length (next_world m))"
    by (simp add: lt_range_def n)
  have "int (length (next_world m)) < 2 ^ 32"
    using g unfolding d(7) by (simp add: grid_def)
  then have b: "length (next_world m) < 2 ^ 32"
    using of_nat_less_iff [where ?'a = int, of "length (next_world m)" "2 ^ 32"] by simp
  show ?thesis
    unfolding copy_phase_def t r
    using copy_loop [of "length (next_world m)" m] len b by simp
qed

lemma copy_phase_other: "td_id t \<noteq> 0 \<Longrightarrow> copy_phase t m = Some m"
  by (simp add: copy_phase_def)

lemma copy_phases:
  assumes g: "grid (next_world m) W H"
    and len: "length (curr_world m) = length (next_world m)"
    and ts: "\<forall>t \<in> set ts. td_width t = W \<and> td_height t = H"
  shows "for_each copy_phase ts m
       = Some (if \<exists>t \<in> set ts. td_id t = 0 then m\<lparr>curr_world := next_world m\<rparr> else m)"
  using assms
proof (induction ts arbitrary: m)
  case Nil
  then show ?case by simp
next
  case (Cons t ts)
  have rest: "\<forall>t \<in> set ts. td_width t = W \<and> td_height t = H" using Cons.prems(3) by simp
  show ?case
  proof (cases "td_id t = 0")
    case True
    let ?m1 = "m\<lparr>curr_world := next_world m\<rparr>"
    have c: "copy_phase t m = Some ?m1"
      using Cons.prems True by (intro copy_phase_leader) simp_all
    have g1: "grid (next_world ?m1) W H" using Cons.prems(1) by simp
    have l1: "length (curr_world ?m1) = length (next_world ?m1)" by simp
    show ?thesis
      using Cons.IH [OF g1 l1 rest] c True by simp
  next
    case False
    then show ?thesis
      using Cons.IH [OF Cons.prems(1,2) rest] copy_phase_other [OF False] by simp
  qed
qed

lemma grid_life_step: "grid w W H \<Longrightarrow> grid (life_step (sint W) (sint H) w) W H"
  by (simp add: grid_def life_step_def)

lemma grid_indices_covered:
  assumes g: "grid w W H"
    and cover: "\<And>y. 0 \<le> y \<Longrightarrow> y < sint H \<Longrightarrow> \<exists>t \<in> set ts. sint (td_start_row t) \<le> y \<and> y \<le> sint (td_end_row t)"
  shows "{..< length w} \<subseteq> (\<Union>t \<in> set ts. band_indices (sint W) (sint (td_start_row t))
                                        (sint (td_end_row t)))"
proof
  fix i assume "i \<in> {..< length w}"
  then have i: "int i < sint W * sint H" using grid_dims(7) [OF g] by simp
  note d = grid_dims [OF g]
  let ?y = "int i div sint W" and ?x = "int i mod sint W"
  have x: "0 \<le> ?x" "?x < sint W" using d(1) by simp_all
  have y0: "0 \<le> ?y" using d(1) by (simp add: pos_imp_zdiv_nonneg_iff)
  have "int i = ?y * sint W + ?x" by simp
  then have "?y * sint W \<le> int i" using x(1) by linarith
  then have "?y * sint W < sint H * sint W" using i by (simp add: mult.commute)
  then have "?y < sint H" using d(1) by (simp add: mult_less_cancel_right)
  from cover [OF y0 this] obtain t where t: "t \<in> set ts"
    "sint (td_start_row t) \<le> ?y" "?y \<le> sint (td_end_row t)" by blast
  have "i = nat (?y * sint W + ?x)" by simp
  then have "i \<in> band_indices (sint W) (sint (td_start_row t)) (sint (td_end_row t))"
    unfolding band_indices_def using t(2,3) x by blast
  then show "i \<in> (\<Union>t \<in> set ts. band_indices (sint W) (sint (td_start_row t))
                                        (sint (td_end_row t)))"
    using t(1) by blast
qed

text \<open>One turn of any threads whose bands lie in the grid and cover its rows.\<close>

lemma turn_life_step:
  fixes W H :: "32 word"
  assumes g: "grid (next_world m) W H"
    and len: "length (curr_world m) = length (next_world m)"
    and ts: "\<forall>t \<in> set ts. td_width t = W \<and> td_height t = H
                  \<and> 0 \<le> sint (td_start_row t) \<and> sint (td_end_row t) < sint H"
    and leader: "\<exists>t \<in> set ts. td_id t = 0"
    and cover: "\<And>y. 0 \<le> y \<Longrightarrow> y < sint H \<Longrightarrow>
                  \<exists>t \<in> set ts. sint (td_start_row t) \<le> y \<and> y \<le> sint (td_end_row t)"
  shows "\<exists>ws. turn ts m
            = Some (m\<lparr>next_world := life_step (sint W) (sint H) (next_world m),
                      curr_world := next_world m, written := written m @ ws\<rparr>)"
proof -
  let ?m1 = "m\<lparr>curr_world := next_world m\<rparr>"
  let ?I = "\<Union>t \<in> set ts. band_indices (sint W) (sint (td_start_row t)) (sint (td_end_row t))"
  have dims: "\<forall>t \<in> set ts. td_width t = W \<and> td_height t = H" using ts by simp
  have c: "for_each copy_phase ts m = Some ?m1"
    using copy_phases [OF g len dims] leader by simp
  have g1: "grid (curr_world ?m1) W H" using g by simp
  have l1: "length (next_world ?m1) = length (curr_world ?m1)" by simp
  from update_phases [OF g1 l1 ts]
  obtain ws where u: "for_each update_phase ts ?m1
      = Some (?m1\<lparr>next_world := update_on ?I (curr_world ?m1) (sint W) (sint H) (next_world ?m1),
                  written := written ?m1 @ ws\<rparr>)"
    by blast
  have "update_on ?I (next_world m) (sint W) (sint H) (next_world m)
      = life_step (sint W) (sint H) (next_world m)"
    by (rule update_on_all) (rule grid_indices_covered [OF g cover])
  then have "turn ts m
      = Some (m\<lparr>next_world := life_step (sint W) (sint H) (next_world m),
                curr_world := next_world m, written := written m @ ws\<rparr>)"
    unfolding turn_def c option.case u by simp
  then show ?thesis ..
qed


lemma chain_cover:
  fixes S :: "nat \<Rightarrow> nat"
  assumes "S 0 \<le> y" "y < S n"
  shows "\<exists>k < n. S k \<le> y \<and> y < S (Suc k)"
  using assms
proof (induction n)
  case 0
  then show ?case by simp
next
  case (Suc n)
  show ?case
  proof (cases "y < S n")
    case True
    with Suc obtain k where "k < n" "S k \<le> y \<and> y < S (Suc k)" by blast
    then show ?thesis using less_Suc_eq by blast
  next
    case False
    then have "S n \<le> y \<and> y < S (Suc n)" using Suc.prems by simp
    then show ?thesis by blast
  qed
qed

text \<open>The threads that \<^verbatim>\<open>run_threads\<close> creates: what one turn needs of them.\<close>

lemma partition_rows_bands:
  assumes T: "0 <s T" and H: "0 <s H"
  shows "\<forall>t \<in> set (partition_rows T nt W H). td_width t = W \<and> td_height t = H
            \<and> 0 \<le> sint (td_start_row t) \<and> sint (td_end_row t) < sint H"
    and "\<exists>t \<in> set (partition_rows T nt W H). td_id t = 0"
    and "\<And>y. 0 \<le> y \<Longrightarrow> y < sint H \<Longrightarrow>
           \<exists>t \<in> set (partition_rows T nt W H). sint (td_start_row t) \<le> y \<and> y \<le> sint (td_end_row t)"
proof -
  define b r where "b = nat (sint H) div nat (sint T)" and "r = nat (sint H) mod nat (sint T)"
  let ?td = "partition_rows T nt W H"
  have pT: "0 < sint T" and pH: "0 < sint H" using T H by (simp_all add: word_sless_alt)
  have len: "length ?td = nat (sint T)" by (rule partition_rows_length)
  show "\<forall>t \<in> set ?td. td_width t = W \<and> td_height t = H
            \<and> 0 \<le> sint (td_start_row t) \<and> sint (td_end_row t) < sint H"
  proof
    fix t assume "t \<in> set ?td"
    then obtain k where k: "k < nat (sint T)" "t = ?td ! k"
      using len by (metis in_set_conv_nth)
    note n = partition_rows_nth [OF T H k(1), where nt = nt and W = W]
    note s = band_rows_partition(2,3) [OF T H k(1), where nt = nt and W = W, folded b_def r_def]
      band_rows_partition(4) [OF T H k(1), folded b_def r_def]
    have "td_width t = W" "td_height t = H" unfolding k(2) n by simp_all
    moreover have "0 \<le> sint (td_start_row t)" unfolding k(2) s(1) by simp
    moreover have "sint (td_end_row t) < sint H" unfolding k(2) s(2) using s(3) pH by simp
    ultimately show "td_width t = W \<and> td_height t = H
            \<and> 0 \<le> sint (td_start_row t) \<and> sint (td_end_row t) < sint H" by simp
  qed
  have k0: "0 < nat (sint T)" using pT by simp
  have "td_id (?td ! 0) = 0" unfolding partition_rows_nth [OF T H k0, where nt = nt and W = W] by simp
  moreover have "?td ! 0 \<in> set ?td" using k0 len by simp
  ultimately show "\<exists>t \<in> set ?td. td_id t = 0" by blast
  fix y :: int assume y: "0 \<le> y" "y < sint H"
  have tot: "band_start b r (nat (sint T)) = nat (sint H)"
    unfolding b_def r_def using pT by (intro band_start_total) simp
  have "band_start b r 0 \<le> nat y" by (simp add: band_start_def)
  moreover have "nat y < band_start b r (nat (sint T))" unfolding tot using y by simp
  ultimately obtain k where k: "k < nat (sint T)"
    "band_start b r k \<le> nat y" "nat y < band_start b r (Suc k)"
    using chain_cover [of "band_start b r" "nat y" "nat (sint T)"] by blast
  note s = band_rows_partition(2,3) [OF T H k(1), where nt = nt and W = W, folded b_def r_def]
  have "sint (td_start_row (?td ! k)) \<le> y \<and> y \<le> sint (td_end_row (?td ! k))"
    unfolding s using k(2,3) y by linarith
  moreover have "?td ! k \<in> set ?td" using k(1) len by simp
  ultimately show "\<exists>t \<in> set ?td. sint (td_start_row t) \<le> y \<and> y \<le> sint (td_end_row t)"
    by blast
qed

lemma turns_life_step:
  fixes W H :: "32 word"
  assumes g: "grid (next_world m) W H"
    and len: "length (curr_world m) = length (next_world m)"
    and ts: "\<forall>t \<in> set ts. td_width t = W \<and> td_height t = H
                  \<and> 0 \<le> sint (td_start_row t) \<and> sint (td_end_row t) < sint H"
    and leader: "\<exists>t \<in> set ts. td_id t = 0"
    and cover: "\<And>y. 0 \<le> y \<Longrightarrow> y < sint H \<Longrightarrow>
                  \<exists>t \<in> set ts. sint (td_start_row t) \<le> y \<and> y \<le> sint (td_end_row t)"
  shows "map_option next_world (turns n ts m)
       = Some ((life_step (sint W) (sint H) ^^ n) (next_world m))"
  using g len
proof (induction n arbitrary: m)
  case 0
  then show ?case by simp
next
  case (Suc n)
  from turn_life_step [OF Suc.prems ts leader cover]
  obtain ws where t: "turn ts m
      = Some (m\<lparr>next_world := life_step (sint W) (sint H) (next_world m),
                curr_world := next_world m, written := written m @ ws\<rparr>)"
    by blast
  let ?m1 = "m\<lparr>next_world := life_step (sint W) (sint H) (next_world m),
                curr_world := next_world m, written := written m @ ws\<rparr>"
  have g1: "grid (next_world ?m1) W H" using grid_life_step [OF Suc.prems(1)] by simp
  have l1: "length (curr_world ?m1) = length (next_world ?m1)" by (simp add: life_step_def)
  show ?case
    using Suc.IH [OF g1 l1] t by (simp add: funpow_swap1)
qed

lemma run_threads_life_steps:
  assumes g: "grid G W H" and T: "0 <s T"
  shows "run_threads T k G W H = Inr ((life_step (sint W) (sint H) ^^ nat (sint k)) G)"
proof -
  note d = grid_dims [OF g]
  have T0: "T \<noteq> 0" "T \<noteq> - 1" "\<not> T <s 0" using T by (auto simp: word_sless_alt)
  let ?m = "\<lparr>next_world = G, curr_world = replicate (nat (sint (W * H))) 0, written = []\<rparr>"
  have gm: "grid (next_world ?m) W H" using g by simp
  have lm: "length (curr_world ?m) = length (next_world ?m)"
    using sint_mult_grid [OF g] d(7) by simp
  note p = partition_rows_bands [OF T d(6), where nt = k and W = W]
  show ?thesis
    unfolding run_threads_def Let_def
    using turns_life_step [OF gm lm p(1,2) p(3), of "nat (sint k)"] T0 by auto
qed


lemma life_step_rule:
  assumes "i < length G"
  shows "(life_step W H G ! i = 1)
       = rule (G ! i = 1) (live_neighbors G W H (int i mod W) (int i div W))"
  using assms by (simp add: life_step_def updated_def rule_def Let_def)

lemma band_one:
  "0 <s (1 :: 32 word)"
  by (simp add: word_sless_alt)

text \<open>
  C3. For a grid \<open>G\<close>, a number of turns \<open>k\<close> and \<open>T \<ge> 1\<close> threads, \<open>run_threads\<close> returns
  the same grid with \<open>T\<close> threads as with one thread: it is \<open>G\<close> after as many
  generations as there are turns. In one turn the threads may run in any order; and
  any sequence of calls of \<open>update_cell\<close> that visits the cells of the grid, in any order
  and each any number of times, leaves the live grid that one call of \<open>update_world\<close> on
  the band of all rows leaves.
\<close>

theorem run_threads_one_or_many:
  assumes "grid G W H" and "0 <s T"
  shows "run_threads T k G W H = run_threads 1 k G W H
       \<and> run_threads T k G W H = Inr ((life_step (sint W) (sint H) ^^ nat (sint k)) G)
       \<and> (\<forall>m ts. next_world m = G \<and> length (curr_world m) = length G
               \<and> set ts = set (partition_rows T k W H)
             \<longrightarrow> map_option next_world (turn ts m)
                 = map_option next_world (turn (partition_rows 1 k W H) m)
               \<and> map_option next_world (turn ts m) = Some (life_step (sint W) (sint H) G))
       \<and> (\<forall>m ps. curr_world m = G \<and> length (next_world m) = length G
               \<and> set ps = set (List.product (le_range 0 (H - 1)) (lt_range 0 W))
             \<longrightarrow> map_option next_world (for_each (\<lambda>(y, x) m. update_cell m x y W H) ps m)
                 = map_option next_world (update_world m W H 0 (H - 1)))"
proof (intro conjI allI impI)
  note d = grid_dims [OF assms(1)]
  have many: "run_threads T k G W H = Inr ((life_step (sint W) (sint H) ^^ nat (sint k)) G)"
    by (rule run_threads_life_steps [OF assms])
  have one: "run_threads 1 k G W H = Inr ((life_step (sint W) (sint H) ^^ nat (sint k)) G)"
    by (rule run_threads_life_steps [OF assms(1) band_one])
  show "run_threads T k G W H = run_threads 1 k G W H" unfolding many one ..
  show "run_threads T k G W H = Inr ((life_step (sint W) (sint H) ^^ nat (sint k)) G)"
    by (rule many)
  {
    fix m :: memory and ts
    assume a: "next_world m = G \<and> length (curr_world m) = length G
               \<and> set ts = set (partition_rows T k W H)"
    then have g: "grid (next_world m) W H"
      and len: "length (curr_world m) = length (next_world m)"
      and ts: "set (partition_rows T k W H) = set ts"
      using assms(1) by simp_all
    note p = partition_rows_bands [OF assms(2) d(6), where nt = k and W = W, unfolded ts]
    note q = partition_rows_bands [OF band_one d(6), where nt = k and W = W]
    from turn_life_step [OF g len p(1,2) p(3)]
    have 1: "map_option next_world (turn ts m) = Some (life_step (sint W) (sint H) G)"
      using a by auto
    from turn_life_step [OF g len q(1,2) q(3)]
    have 2: "map_option next_world (turn (partition_rows 1 k W H) m)
        = Some (life_step (sint W) (sint H) G)"
      using a by auto
    show "map_option next_world (turn ts m)
        = map_option next_world (turn (partition_rows 1 k W H) m)"
      unfolding 1 2 ..
    show "map_option next_world (turn ts m) = Some (life_step (sint W) (sint H) G)"
      by (rule 1)
  }
  {
    fix m :: memory and ps
    assume a: "curr_world m = G \<and> length (next_world m) = length G
               \<and> set ps = set (List.product (le_range 0 (H - 1)) (lt_range 0 W))"
    then have g: "grid (curr_world m) W H"
      and len: "length (next_world m) = length (curr_world m)"
      and ps: "set ps = set (List.product (le_range 0 (H - 1)) (lt_range 0 W))"
      using assms(1) by simp_all
    let ?all = "List.product (le_range 0 (H - 1)) (lt_range 0 W)"
    have h1: "sint (H - 1) = sint H - 1" using d(2) by (intro sint_minus_1) simp
    have inr: "\<forall>(y, x) \<in> set ?all.
        0 \<le> sint x \<and> sint x < sint W \<and> 0 \<le> sint y \<and> sint y < sint H"
    proof (clarify, intro conjI)
      fix y x assume "(y, x) \<in> set ?all"
      then have y: "y \<in> set (le_range 0 (H - 1))" and x: "x \<in> set (lt_range 0 W)" by simp_all
      from x have "sint x \<in> {0 ..< sint W}" using lt_range_cols_set [of W] by blast
      then show "0 \<le> sint x" "sint x < sint W" by simp_all
      from le_range_rows [OF _ y] h1 show "0 \<le> sint y" "sint y < sint H" by simp_all
    qed
    from update_cells [OF g len inr]
    have 1: "map_option next_world (for_each (\<lambda>(y, x) m. update_cell m x y W H) ?all m)
        = Some (update_on ((\<lambda>(y, x). nat (sint y * sint W + sint x)) ` set ?all)
                  (curr_world m) (sint W) (sint H) (next_world m))"
      by (auto simp: update_on_def)
    from update_cells [OF g len inr [folded ps]]
    have 2: "map_option next_world (for_each (\<lambda>(y, x) m. update_cell m x y W H) ps m)
        = Some (update_on ((\<lambda>(y, x). nat (sint y * sint W + sint x)) ` set ps)
                  (curr_world m) (sint W) (sint H) (next_world m))"
      by (auto simp: update_on_def)
    show "map_option next_world (for_each (\<lambda>(y, x) m. update_cell m x y W H) ps m)
        = map_option next_world (update_world m W H 0 (H - 1))"
      unfolding update_world_cells 1 2 ps ..
  }
qed


lemma grid_blinker: "grid blinker 3 4"
  by (simp add: blinker_def grid_def word_sless_alt)

theorem run_threads_one_or_many_witness:
  "grid blinker 3 4 \<and> 0 <s (2 :: 32 word)
   \<and> run_threads 2 1 blinker 3 4 = run_threads 1 1 blinker 3 4
   \<and> run_threads 2 1 blinker 3 4 = Inr [0, 0, 0, 1, 1, 1, 0, 0, 0, 0, 0, 0]"
proof -
  have t: "0 <s (2 :: 32 word)" by (simp add: word_sless_alt)
  have v: "run_threads 2 1 blinker 3 4 = Inr [0, 0, 0, 1, 1, 1, 0, 0, 0, 0, 0, 0]"
    by code_simp
  from run_threads_one_or_many [OF grid_blinker t, of 1] grid_blinker t v show ?thesis by blast
qed

section \<open>More threads than rows\<close>

lemma update_world_empty:
  assumes "sint e < sint s"
  shows "update_world m W H s e = Some m"
  using assms by (simp add: update_world_def le_range_def count_from_def)

lemma band_start_more_threads:
  assumes "H < T"
  shows "band_start (H div T) (H mod T) k = min k H" "band_size (H div T) (H mod T) k = (if k < H then 1 else 0)"
  using assms by (simp_all add: band_start_def band_size_def)

text \<open>
  C6. With \<open>H \<ge> 1\<close> rows and \<open>T > H\<close> threads, each of the first \<open>H\<close> threads gets
  exactly one row, its own, and every later thread gets the band from row \<open>H\<close> to row
  \<open>H - 1\<close>, whose start is above its end: on it \<open>update_world\<close> visits no row, stores
  nothing and leaves the memory as it is. The run returns a grid, the one that a run
  with \<open>H\<close> threads returns.
\<close>

theorem run_threads_more_threads_than_rows:
  assumes "grid G W H" and "sint H < sint T"
  shows "(\<forall>j < nat (sint H).
            td_start_row (partition_rows T k W H ! j) = word_of_nat j
          \<and> td_end_row (partition_rows T k W H ! j) = word_of_nat j
          \<and> band_rows (partition_rows T k W H ! j) = [word_of_nat j])
       \<and> (\<forall>j. nat (sint H) \<le> j \<and> j < nat (sint T) \<longrightarrow>
            td_start_row (partition_rows T k W H ! j) = H
          \<and> td_end_row (partition_rows T k W H ! j) = H - 1
          \<and> td_end_row (partition_rows T k W H ! j) <s td_start_row (partition_rows T k W H ! j)
          \<and> band_rows (partition_rows T k W H ! j) = []
          \<and> (\<forall>m. update_phase (partition_rows T k W H ! j) m = Some m))
       \<and> (\<exists>g. run_threads T k G W H = Inr g \<and> run_threads H k G W H = Inr g)"
proof (intro conjI allI impI)
  note d = grid_dims [OF assms(1)]
  have T: "0 <s T" using d(2) assms(2) by (simp add: word_sless_alt)
  have lt: "nat (sint H) < nat (sint T)" using d(2) assms(2) by simp
  note bs = band_start_more_threads [OF lt]
  have Hw: "word_of_nat (nat (sint H)) = H" using d(2) by simp
  {
    fix j assume j: "j < nat (sint H)"
    then have jT: "j < nat (sint T)" using lt by (rule less_trans)
    note n = partition_rows_nth [OF T d(6) jT, where nt = k and W = W, unfolded bs]
    have m: "min j (nat (sint H)) = j" using j by simp
    show s: "td_start_row (partition_rows T k W H ! j) = word_of_nat j"
      unfolding n using m by simp
    show e: "td_end_row (partition_rows T k W H ! j) = word_of_nat j"
      unfolding n using m j by simp
    have "band_rows (partition_rows T k W H ! j)
        = map word_of_nat [min j (nat (sint H)) ..< min (Suc j) (nat (sint H))]"
      using band_rows_partition(1) [OF T d(6) jT, of k W] unfolding bs .
    also have "min (Suc j) (nat (sint H)) = Suc j" using j by simp
    finally show "band_rows (partition_rows T k W H ! j) = [word_of_nat j]"
      unfolding m by simp
  }
  {
    fix j assume "nat (sint H) \<le> j \<and> j < nat (sint T)"
    then have j: "nat (sint H) \<le> j" and jT: "j < nat (sint T)" by simp_all
    note n = partition_rows_nth [OF T d(6) jT, where nt = k and W = W, unfolded bs]
    have m: "min j (nat (sint H)) = nat (sint H)" "\<not> j < nat (sint H)" using j by simp_all
    show s: "td_start_row (partition_rows T k W H ! j) = H"
      unfolding n using m Hw by simp
    show e: "td_end_row (partition_rows T k W H ! j) = H - 1"
      unfolding n using m Hw by simp
    have h1: "sint (H - 1) = sint H - 1" using d(2) by (intro sint_minus_1) simp
    show neg: "td_end_row (partition_rows T k W H ! j) <s td_start_row (partition_rows T k W H ! j)"
      unfolding s e using h1 by (simp add: word_sless_alt)
    show "band_rows (partition_rows T k W H ! j) = []"
      unfolding band_rows_def s e using h1 by (simp add: le_range_def count_from_def)
    fix m :: memory
    have w: "td_width (partition_rows T k W H ! j) = W" "td_height (partition_rows T k W H ! j) = H"
      unfolding n by simp_all
    show "update_phase (partition_rows T k W H ! j) m = Some m"
      unfolding update_phase_def s e w using h1 by (intro update_world_empty) simp
  }
  have "run_threads T k G W H = Inr ((life_step (sint W) (sint H) ^^ nat (sint k)) G)"
    by (rule run_threads_life_steps [OF assms(1) T])
  moreover have "run_threads H k G W H = Inr ((life_step (sint W) (sint H) ^^ nat (sint k)) G)"
    by (rule run_threads_life_steps [OF assms(1) d(6)])
  ultimately show "\<exists>g. run_threads T k G W H = Inr g \<and> run_threads H k G W H = Inr g"
    by simp
qed

theorem run_threads_more_threads_than_rows_witness:
  "grid blinker 3 4 \<and> sint (4 :: 32 word) < sint (6 :: 32 word)
   \<and> map (\<lambda>t. (td_id t, td_start_row t, td_end_row t)) (partition_rows 6 1 3 4)
       = [(0, 0, 0), (1, 1, 1), (2, 2, 2), (3, 3, 3), (4, 4, 3), (5, 4, 3)]
   \<and> (\<exists>g. run_threads 6 1 blinker 3 4 = Inr g \<and> run_threads 4 1 blinker 3 4 = Inr g)"
proof -
  have t: "sint (4 :: 32 word) < sint (6 :: 32 word)" by simp
  have v: "map (\<lambda>t. (td_id t, td_start_row t, td_end_row t)) (partition_rows 6 1 3 4)
       = [(0, 0, 0), (1, 1, 1), (2, 2, 2), (3, 3, 3), (4, 4, 3), (5, 4, 3)]"
    by code_simp
  from run_threads_more_threads_than_rows [OF grid_blinker t, of 1] grid_blinker t v
  show ?thesis by blast
qed


section \<open>The stores of two threads\<close>

lemma band_indices_disjoint:
  assumes W: "0 < W" and s1: "0 \<le> s1" and lt: "e1 < s2"
  shows "band_indices W s1 e1 \<inter> band_indices W s2 e2 = {}"
proof (rule ccontr)
  assume "band_indices W s1 e1 \<inter> band_indices W s2 e2 \<noteq> {}"
  then obtain x1 y1 x2 y2 where
    a: "s1 \<le> y1" "y1 \<le> e1" "0 \<le> x1" "x1 < W"
    and b: "s2 \<le> y2" "y2 \<le> e2" "0 \<le> x2" "x2 < W"
    and eq: "nat (y1 * W + x1) = nat (y2 * W + x2)"
    unfolding band_indices_def by blast
  have "0 \<le> y1" "0 \<le> y2" using a b s1 lt by simp_all
  then have "0 \<le> y1 * W + x1" "0 \<le> y2 * W + x2" using W a(3) b(3) by simp_all
  then have "y1 * W + x1 = y2 * W + x2" using eq by simp
  from row_major_inj [OF a(3,4) b(3,4) this] have "y1 = y2" by simp
  then show False using a(2) b(1) lt by simp
qed

lemma partition_bands_apart:
  assumes T: "0 <s T" and H: "0 <s H" and j: "j < k" and k: "k < nat (sint T)"
  shows "sint (td_end_row (partition_rows T nt W H ! j)) < sint (td_start_row (partition_rows T nt W H ! k))"
    and "0 \<le> sint (td_start_row (partition_rows T nt W H ! j))"
proof -
  define b r where "b = nat (sint H) div nat (sint T)" and "r = nat (sint H) mod nat (sint T)"
  have jT: "j < nat (sint T)" using j k by simp
  note sj = band_rows_partition(2,3) [OF T H jT, where nt = nt and W = W, folded b_def r_def]
  note sk = band_rows_partition(2) [OF T H k, where nt = nt and W = W, folded b_def r_def]
  have "band_start b r (Suc j) \<le> band_start b r k" using j by (intro band_start_mono) simp
  then show "sint (td_end_row (partition_rows T nt W H ! j))
      < sint (td_start_row (partition_rows T nt W H ! k))"
    unfolding sj sk by simp
  show "0 \<le> sint (td_start_row (partition_rows T nt W H ! j))" unfolding sj by simp
qed

text \<open>
  C5. In one generation the indices of the live grid to which \<open>update_world\<close> stores for
  the band of a worker, from row \<open>start_row\<close> to row \<open>end_row\<close>, are among the
  \<open>y * W + x\<close> with \<open>start_row \<le> y \<le> end_row\<close> and \<open>0 \<le> x < W\<close>, and every cell outside
  them keeps its value. For two different workers of one partition these sets of
  indices are disjoint: no index is stored to by both.
\<close>

theorem update_world_stores_disjoint:
  assumes "grid (curr_world m1) W H" and "length (next_world m1) = length (curr_world m1)"
    and "grid (curr_world m2) W H" and "length (next_world m2) = length (curr_world m2)"
    and "0 <s T" and "j < nat (sint T)" and "k < nat (sint T)" and "j \<noteq> k"
  shows "\<exists>m1' m2' ws1 ws2.
           update_phase (partition_rows T nt W H ! j) m1 = Some m1'
         \<and> written m1' = written m1 @ ws1
         \<and> set ws1 \<subseteq> band_indices (sint W) (sint (td_start_row (partition_rows T nt W H ! j)))
                         (sint (td_end_row (partition_rows T nt W H ! j)))
         \<and> (\<forall>i < length (next_world m1).
               i \<notin> band_indices (sint W) (sint (td_start_row (partition_rows T nt W H ! j)))
                         (sint (td_end_row (partition_rows T nt W H ! j)))
               \<longrightarrow> next_world m1' ! i = next_world m1 ! i)
         \<and> update_phase (partition_rows T nt W H ! k) m2 = Some m2'
         \<and> written m2' = written m2 @ ws2
         \<and> set ws2 \<subseteq> band_indices (sint W) (sint (td_start_row (partition_rows T nt W H ! k)))
                         (sint (td_end_row (partition_rows T nt W H ! k)))
         \<and> set ws1 \<inter> set ws2 = {}
         \<and> band_indices (sint W) (sint (td_start_row (partition_rows T nt W H ! j)))
               (sint (td_end_row (partition_rows T nt W H ! j)))
             \<inter> band_indices (sint W) (sint (td_start_row (partition_rows T nt W H ! k)))
               (sint (td_end_row (partition_rows T nt W H ! k))) = {}"
proof -
  note d = grid_dims [OF assms(1)]
  let ?td = "partition_rows T nt W H"
  let ?B = "\<lambda>t. band_indices (sint W) (sint (td_start_row t)) (sint (td_end_row t))"
  note p = partition_rows_bands(1) [OF assms(5) d(6), where nt = nt and W = W]
  have len: "length ?td = nat (sint T)" by (rule partition_rows_length)
  have tj: "?td ! j \<in> set ?td" and tk: "?td ! k \<in> set ?td" using assms(6,7) len by simp_all
  have bj: "td_width (?td ! j) = W" "td_height (?td ! j) = H"
    "0 \<le> sint (td_start_row (?td ! j))" "sint (td_end_row (?td ! j)) < sint H"
    using p tj by blast+
  have bk: "td_width (?td ! k) = W" "td_height (?td ! k) = H"
    "0 \<le> sint (td_start_row (?td ! k))" "sint (td_end_row (?td ! k)) < sint H"
    using p tk by blast+
  from update_world_band [OF assms(1,2) bj(3,4)]
  obtain ws1 where 1: "update_phase (?td ! j) m1
      = Some (m1\<lparr>next_world := update_on (?B (?td ! j)) (curr_world m1) (sint W) (sint H)
                                  (next_world m1),
                  written := written m1 @ ws1\<rparr>)"
    and w1: "set ws1 \<subseteq> ?B (?td ! j)"
    unfolding update_phase_def bj(1,2) by blast
  from update_world_band [OF assms(3,4) bk(3,4)]
  obtain ws2 where 2: "update_phase (?td ! k) m2
      = Some (m2\<lparr>next_world := update_on (?B (?td ! k)) (curr_world m2) (sint W) (sint H)
                                  (next_world m2),
                  written := written m2 @ ws2\<rparr>)"
    and w2: "set ws2 \<subseteq> ?B (?td ! k)"
    unfolding update_phase_def bk(1,2) by blast
  have dis: "?B (?td ! j) \<inter> ?B (?td ! k) = {}"
  proof (cases "j < k")
    case True
    from partition_bands_apart [OF assms(5) d(6) True assms(7), where nt = nt and W = W]
    show ?thesis using d(1) by (intro band_indices_disjoint) simp_all
  next
    case False
    then have kj: "k < j" using assms(8) by simp
    from partition_bands_apart [OF assms(5) d(6) kj assms(6), where nt = nt and W = W]
    have "?B (?td ! k) \<inter> ?B (?td ! j) = {}" using d(1) by (intro band_indices_disjoint) simp_all
    then show ?thesis by blast
  qed
  have frame: "\<forall>i < length (next_world m1). i \<notin> ?B (?td ! j) \<longrightarrow>
      update_on (?B (?td ! j)) (curr_world m1) (sint W) (sint H) (next_world m1) ! i
        = next_world m1 ! i"
    by (simp add: nth_update_on)
  have ws: "set ws1 \<inter> set ws2 = {}" using w1 w2 dis by blast
  let ?m1' = "m1\<lparr>next_world := update_on (?B (?td ! j)) (curr_world m1) (sint W) (sint H)
                                  (next_world m1),
                  written := written m1 @ ws1\<rparr>"
  let ?m2' = "m2\<lparr>next_world := update_on (?B (?td ! k)) (curr_world m2) (sint W) (sint H)
                                  (next_world m2),
                  written := written m2 @ ws2\<rparr>"
  have f1: "\<forall>i < length (next_world m1). i \<notin> ?B (?td ! j) \<longrightarrow>
      next_world ?m1' ! i = next_world m1 ! i"
    using frame by simp
  have wr: "written ?m1' = written m1 @ ws1" "written ?m2' = written m2 @ ws2" by simp_all
  show ?thesis
    by (rule exI [of _ ?m1'], rule exI [of _ ?m2'], rule exI [of _ ws1], rule exI [of _ ws2])
       (intro conjI 1 2 w1 w2 ws dis f1 wr)
qed

theorem update_world_stores_disjoint_witness:
  "grid (curr_world example_memory) 3 3
   \<and> length (next_world example_memory) = length (curr_world example_memory)
   \<and> 0 <s (2 :: 32 word) \<and> (0 :: nat) < nat (sint (2 :: 32 word))
   \<and> (1 :: nat) < nat (sint (2 :: 32 word)) \<and> (0 :: nat) \<noteq> 1
   \<and> update_phase (partition_rows 2 1 3 3 ! 0) example_memory
       = Some (example_memory\<lparr>next_world := [0, 1, 0, 1, 1, 1, 0, 0, 0], written := [1, 3, 4, 5]\<rparr>)
   \<and> update_phase (partition_rows 2 1 3 3 ! 1) example_memory = Some example_memory
   \<and> (\<exists>m1' m2' ws1 ws2.
         update_phase (partition_rows 2 1 3 3 ! 0) example_memory = Some m1'
       \<and> written m1' = written example_memory @ ws1
       \<and> update_phase (partition_rows 2 1 3 3 ! 1) example_memory = Some m2'
       \<and> written m2' = written example_memory @ ws2
       \<and> set ws1 \<inter> set ws2 = {})"
proof -
  have g: "grid (curr_world example_memory) 3 3"
    by (simp add: example_memory_def example_grid_def grid_def word_sless_alt)
  have l: "length (next_world example_memory) = length (curr_world example_memory)"
    by (simp add: example_memory_def)
  have t: "0 <s (2 :: 32 word)" "(0 :: nat) < nat (sint (2 :: 32 word))"
    "(1 :: nat) < nat (sint (2 :: 32 word))" "(0 :: nat) \<noteq> 1"
    by (simp_all add: word_sless_alt)
  have v0: "update_phase (partition_rows 2 1 3 3 ! 0) example_memory
       = Some (example_memory\<lparr>next_world := [0, 1, 0, 1, 1, 1, 0, 0, 0], written := [1, 3, 4, 5]\<rparr>)"
    by code_simp
  have v1: "update_phase (partition_rows 2 1 3 3 ! 1) example_memory = Some example_memory"
    by code_simp
  from update_world_stores_disjoint [OF g l g l t, of 1]
  obtain m1' m2' ws1 ws2 where
    "update_phase (partition_rows 2 1 3 3 ! 0) example_memory = Some m1'"
    "written m1' = written example_memory @ ws1"
    "update_phase (partition_rows 2 1 3 3 ! 1) example_memory = Some m2'"
    "written m2' = written example_memory @ ws2"
    "set ws1 \<inter> set ws2 = {}"
    by blast
  then have "\<exists>m1' m2' ws1 ws2.
         update_phase (partition_rows 2 1 3 3 ! 0) example_memory = Some m1'
       \<and> written m1' = written example_memory @ ws1
       \<and> update_phase (partition_rows 2 1 3 3 ! 1) example_memory = Some m2'
       \<and> written m2' = written example_memory @ ws2
       \<and> set ws1 \<inter> set ws2 = {}"
    by blast
  with g l t v0 v1 show ?thesis by (intro conjI)
qed


section \<open>Reading the configuration\<close>

lemma fscanf_u_u_Some:
  "fscanf_u_u f = Some ((col, row), rest) \<longleftrightarrow> f = Some col # Some row # rest"
  by (cases f rule: fscanf_u_u.cases) auto

lemma fscanf_d_Some: "fscanf_d f = Some (v, rest) \<longleftrightarrow> f = Some v # rest"
  by (cases f rule: fscanf_d.cases) auto

lemma store_Some:
  "store w i v = Some w' \<longleftrightarrow> unat i < length w \<and> w' = w[unat i := v]"
  by (auto simp: store_def)

text \<open>The grid after the pairs have been marked.\<close>

lemma fold_mark_length:
  "length (fold (\<lambda>(col, row) w. w[unat (translate_to_1D col row W H) := 1]) pairs w) = length w"
  by (induction pairs arbitrary: w) (auto simp: case_prod_unfold)

lemma fold_mark_nth:
  assumes "i < length w"
  shows "fold (\<lambda>(col, row) w. w[unat (translate_to_1D col row W H) := 1]) pairs w ! i
       = (if \<exists>(col, row) \<in> set pairs. unat (translate_to_1D col row W H) = i then 1 else w ! i)"
  using assms
proof (induction pairs arbitrary: w)
  case Nil
  then show ?case by simp
next
  case (Cons p pairs)
  obtain c r where p: "p = (c, r)" by (cases p)
  have "i < length (w[unat (translate_to_1D c r W H) := 1])" using Cons.prems by simp
  from Cons.IH [OF this] show ?case
    using Cons.prems p by (auto simp: nth_list_update)
qed

lemma read_pairs_marks:
  assumes "\<forall>(col, row) \<in> set pairs. unat (translate_to_1D col row W H) < length w"
  shows "read_pairs (length pairs + n) (pair_items pairs @ rest) (Some w) W H
       = read_pairs n rest
           (Some (fold (\<lambda>(col, row) w. w[unat (translate_to_1D col row W H) := 1]) pairs w)) W H"
  using assms
proof (induction pairs arbitrary: w)
  case Nil
  then show ?case by (simp add: pair_items_def)
next
  case (Cons p pairs)
  obtain c r where p: "p = (c, r)" by (cases p)
  have in_b: "unat (translate_to_1D c r W H) < length w" using Cons.prems p by simp
  have "\<forall>(col, row) \<in> set pairs.
          unat (translate_to_1D col row W H) < length (w[unat (translate_to_1D c r W H) := 1])"
    using Cons.prems by simp
  from Cons.IH [OF this] show ?case
    using in_b p by (simp add: pair_items_def store_def)
qed

lemma read_pairs_World:
  assumes "read_pairs n f (Some w) W H = World w' W' H'"
  shows "\<exists>pairs rest. f = pair_items pairs @ rest \<and> length pairs = n
           \<and> (\<forall>(col, row) \<in> set pairs. unat (translate_to_1D col row W H) < length w)
           \<and> w' = fold (\<lambda>(col, row) w. w[unat (translate_to_1D col row W H) := 1]) pairs w
           \<and> W' = W \<and> H' = H"
  using assms
proof (induction n arbitrary: f w)
  case 0
  then show ?case by (auto simp: pair_items_def)
next
  case (Suc n)
  from Suc.prems obtain c r rest where sc: "fscanf_u_u f = Some ((c, r), rest)"
    by (auto split: option.splits)
  with Suc.prems obtain w1 where st: "store w (translate_to_1D c r W H) 1 = Some w1"
    by (auto split: option.splits)
  with sc Suc.prems have rec: "read_pairs n rest (Some w1) W H = World w' W' H'" by simp
  from st have in_b: "unat (translate_to_1D c r W H) < length w"
    and w1: "w1 = w[unat (translate_to_1D c r W H) := 1]"
    by (simp_all add: store_Some)
  from sc have f: "f = Some c # Some r # rest" by (simp add: fscanf_u_u_Some)
  from Suc.IH [OF rec] obtain pairs rest' where ih:
    "rest = pair_items pairs @ rest'" "length pairs = n"
    "\<forall>(col, row) \<in> set pairs. unat (translate_to_1D col row W H) < length w1"
    "w' = fold (\<lambda>(col, row) w. w[unat (translate_to_1D col row W H) := 1]) pairs w1"
    "W' = W" "H' = H"
    by blast
  have "f = pair_items ((c, r) # pairs) @ rest'" using f ih(1) by (simp add: pair_items_def)
  moreover have "length ((c, r) # pairs) = Suc n" using ih(2) by simp
  moreover have "\<forall>(col, row) \<in> set ((c, r) # pairs). unat (translate_to_1D col row W H) < length w"
    using ih(3) in_b w1 by simp
  moreover have "w' = fold (\<lambda>(col, row) w. w[unat (translate_to_1D col row W H) := 1])
                        ((c, r) # pairs) w"
    using ih(4) w1 by simp
  ultimately show ?case using ih(5,6) by blast
qed

text \<open>When an announced pair cannot be read, no grid is returned.\<close>

lemma read_pairs_short:
  assumes "length pairs < n" "fscanf_u_u rest = None"
  shows "read_pairs n (pair_items pairs @ rest) world W H \<noteq> World w' W' H'"
  using assms
proof (induction pairs arbitrary: n world)
  case Nil
  then obtain n' where "n = Suc n'" by (cases n) auto
  then show ?case using Nil by (simp add: pair_items_def)
next
  case (Cons p pairs)
  obtain c r where p: "p = (c, r)" by (cases p)
  from Cons.prems obtain n' where n: "n = Suc n'" "length pairs < n'" by (cases n) auto
  have items: "pair_items (p # pairs) @ rest = Some c # Some r # pair_items pairs @ rest"
    using p by (simp add: pair_items_def)
  show ?case
    unfolding items n(1)
    using Cons.IH [OF n(2) Cons.prems(2)]
    by (auto split: option.splits)
qed

lemma calloc_world_fits:
  assumes "0 \<le> sint W * sint H" "sint W * sint H < 2 ^ 31"
  shows "calloc_world W H = Some (replicate (nat (sint W * sint H)) 0)"
proof -
  have "W * H = word_of_int (sint W * sint H)" by (simp add: word_of_int_hom_syms)
  moreover have "sint (word_of_int (sint W * sint H) :: 32 word) = sint W * sint H"
    using assms by (intro sint_of_int_32) simp_all
  ultimately have "sint (W * H) = sint W * sint H" by simp
  then show ?thesis using assms(1) by (simp add: calloc_world_def Let_def)
qed

lemma initialize_world_header:
  "initialize_world (Some (Some num_rows # Some num_cols # Some num_pairs # body))
     = read_pairs (unat num_pairs) body (calloc_world num_cols num_rows) num_cols num_rows"
  by (simp add: initialize_world_def Let_def)

lemma initialize_world_no_header:
  assumes "\<nexists>num_rows num_cols num_pairs body.
             f = Some num_rows # Some num_cols # Some num_pairs # body"
  shows "initialize_world (Some f) = Null"
proof -
  have "fscanf_d f = None \<or> (\<exists>a f1. fscanf_d f = Some (a, f1) \<and>
          (fscanf_d f1 = None \<or> (\<exists>b f2. fscanf_d f1 = Some (b, f2) \<and> fscanf_d f2 = None)))"
  proof (rule ccontr)
    assume neg: "\<not> ?thesis"
    then obtain a f1 where a: "fscanf_d f = Some (a, f1)" by (cases "fscanf_d f") auto
    with neg obtain b f2 where b: "fscanf_d f1 = Some (b, f2)" by (cases "fscanf_d f1") auto
    with neg a obtain c f3 where c: "fscanf_d f2 = Some (c, f3)" by (cases "fscanf_d f2") auto
    from a b c have "f = Some a # Some b # Some c # f3" by (simp add: fscanf_d_Some)
    with assms show False by blast
  qed
  then show ?thesis by (auto simp: initialize_world_def)
qed

lemma read_pairs_null_pointer:
  "read_pairs n f None W H \<noteq> World w W' H'"
  by (cases n) (auto split: option.splits)

text \<open>
  A grid that \<^verbatim>\<open>initialize_world\<close> returns has as many cells as the product of the
  dimensions, taken as an \<^verbatim>\<open>int\<close>; a cell is 1 when one of the listed pairs maps to its
  index, and 0 otherwise.
\<close>

lemma initialize_world_World:
  assumes "initialize_world config_file = World world W H"
  shows "\<exists>num_pairs pairs rest.
           config_file = Some (Some H # Some W # Some num_pairs # pair_items pairs @ rest)
         \<and> length pairs = unat num_pairs
         \<and> length world = nat (sint (W * H))
         \<and> (\<forall>i < length world.
               world ! i = (if \<exists>(col, row) \<in> set pairs. unat (translate_to_1D col row W H) = i
                            then 1 else 0))"
proof -
  from assms obtain f where cf: "config_file = Some f"
    by (cases config_file) (auto simp: initialize_world_def)
  have "\<exists>num_rows num_cols num_pairs body. f = Some num_rows # Some num_cols # Some num_pairs # body"
    using initialize_world_no_header [of f] assms cf by auto
  then obtain num_rows num_cols num_pairs body
    where f: "f = Some num_rows # Some num_cols # Some num_pairs # body" by blast
  have rp0: "read_pairs (unat num_pairs) body (calloc_world num_cols num_rows) num_cols num_rows
        = World world W H"
    using assms cf f initialize_world_header by simp
  then obtain w0 where ca: "calloc_world num_cols num_rows = Some w0"
    using read_pairs_null_pointer by (cases "calloc_world num_cols num_rows") auto
  note rp = rp0 [unfolded ca]
  from ca have w0: "w0 = replicate (nat (sint (num_cols * num_rows))) 0"
    by (auto simp: calloc_world_def Let_def split: if_splits)
  from read_pairs_World [OF rp] obtain pairs rest where r:
    "body = pair_items pairs @ rest" "length pairs = unat num_pairs"
    "world = fold (\<lambda>(col, row) w. w[unat (translate_to_1D col row num_cols num_rows) := 1]) pairs w0"
    "W = num_cols" "H = num_rows"
    by blast
  have len: "length world = nat (sint (W * H))"
    using r(3-5) w0 by (simp add: fold_mark_length)
  have cells: "world ! i = (if \<exists>(col, row) \<in> set pairs. unat (translate_to_1D col row W H) = i
                            then 1 else 0)" if "i < length world" for i
  proof -
    have i: "i < length w0" using that r(3) by (simp add: fold_mark_length)
    then have "w0 ! i = 0" using w0 by simp
    then show ?thesis using fold_mark_nth [OF i, of W H pairs] r(3-5) by simp
  qed
  show ?thesis using cf f r(1,2,4,5) len cells by blast
qed

lemma initialize_world_short:
  assumes "length pairs < unat num_pairs" "fscanf_u_u rest = None"
  shows "initialize_world
           (Some (Some num_rows # Some num_cols # Some num_pairs # pair_items pairs @ rest))
         \<noteq> World world W H"
  unfolding initialize_world_header
  by (rule read_pairs_short [OF assms])

text \<open>
  When the product of the dimensions is a non-negative \<^verbatim>\<open>int\<close> and every pair that is
  read maps to an index inside the grid, \<^verbatim>\<open>initialize_world\<close> returns \<^verbatim>\<open>NULL\<close> at an
  announced pair that cannot be read, and the marked grid when all announced pairs can
  be read.
\<close>

lemma initialize_world_short_Null:
  assumes short: "length pairs < unat num_pairs" "fscanf_u_u rest = None"
    and fits: "0 \<le> sint num_cols * sint num_rows" "sint num_cols * sint num_rows < 2 ^ 31"
    and inside: "\<forall>(col, row) \<in> set pairs.
        unat (translate_to_1D col row num_cols num_rows) < nat (sint num_cols * sint num_rows)"
  shows "initialize_world
           (Some (Some num_rows # Some num_cols # Some num_pairs # pair_items pairs @ rest))
         = Null"
proof -
  let ?w0 = "replicate (nat (sint num_cols * sint num_rows)) (0 :: 32 word)"
  define n where "n = unat num_pairs - Suc (length pairs)"
  have n: "unat num_pairs = length pairs + Suc n"
    using short(1) by (simp add: n_def)
  have ins: "\<forall>(col, row) \<in> set pairs.
        unat (translate_to_1D col row num_cols num_rows) < length ?w0"
    using inside by simp
  have "initialize_world
           (Some (Some num_rows # Some num_cols # Some num_pairs # pair_items pairs @ rest))
      = read_pairs (length pairs + Suc n) (pair_items pairs @ rest) (Some ?w0) num_cols num_rows"
    by (simp only: initialize_world_header calloc_world_fits [OF fits] n)
  also have "\<dots> = read_pairs (Suc n) rest
          (Some (fold (\<lambda>(col, row) w. w[unat (translate_to_1D col row num_cols num_rows) := 1])
                   pairs ?w0)) num_cols num_rows"
    by (rule read_pairs_marks [OF ins])
  also have "\<dots> = Null" using short(2) by simp
  finally show ?thesis .
qed

lemma initialize_world_complete:
  assumes all: "length pairs = unat num_pairs"
    and fits: "0 \<le> sint num_cols * sint num_rows" "sint num_cols * sint num_rows < 2 ^ 31"
    and inside: "\<forall>(col, row) \<in> set pairs.
        unat (translate_to_1D col row num_cols num_rows) < nat (sint num_cols * sint num_rows)"
  shows "initialize_world
           (Some (Some num_rows # Some num_cols # Some num_pairs # pair_items pairs @ rest))
         = World (fold (\<lambda>(col, row) w. w[unat (translate_to_1D col row num_cols num_rows) := 1])
                    pairs (replicate (nat (sint num_cols * sint num_rows)) 0))
             num_cols num_rows"
proof -
  let ?w0 = "replicate (nat (sint num_cols * sint num_rows)) (0 :: 32 word)"
  have ins: "\<forall>(col, row) \<in> set pairs.
        unat (translate_to_1D col row num_cols num_rows) < length ?w0"
    using inside by simp
  have "read_pairs (length pairs + 0) (pair_items pairs @ rest) (Some ?w0) num_cols num_rows
      = read_pairs 0 rest
          (Some (fold (\<lambda>(col, row) w. w[unat (translate_to_1D col row num_cols num_rows) := 1])
                   pairs ?w0)) num_cols num_rows"
    by (rule read_pairs_marks [OF ins])
  moreover have "initialize_world
           (Some (Some num_rows # Some num_cols # Some num_pairs # pair_items pairs @ rest))
      = read_pairs (length pairs + 0) (pair_items pairs @ rest) (Some ?w0) num_cols num_rows"
    by (simp only: initialize_world_header calloc_world_fits [OF fits] all add_0_right)
  ultimately show ?thesis by simp
qed

text \<open>
  A pair that lies more than one width or height out of range can map to an index
  outside the grid, and the store is made without a check: this is the first stray
  store of the loop.
\<close>

lemma initialize_world_stray:
  assumes fits: "0 \<le> sint num_cols * sint num_rows" "sint num_cols * sint num_rows < 2 ^ 31"
    and inside: "\<forall>(col, row) \<in> set pairs.
        unat (translate_to_1D col row num_cols num_rows) < nat (sint num_cols * sint num_rows)"
    and outside: "nat (sint num_cols * sint num_rows) \<le> unat (translate_to_1D c r num_cols num_rows)"
    and more: "length pairs < unat num_pairs"
  shows "initialize_world
           (Some (Some num_rows # Some num_cols # Some num_pairs
                    # pair_items pairs @ Some c # Some r # rest))
         = Stray_store (translate_to_1D c r num_cols num_rows)"
proof -
  let ?w0 = "replicate (nat (sint num_cols * sint num_rows)) (0 :: 32 word)"
  let ?marked = "fold (\<lambda>(col, row) w. w[unat (translate_to_1D col row num_cols num_rows) := 1])
              pairs ?w0"
  define n where "n = unat num_pairs - Suc (length pairs)"
  have n: "unat num_pairs = length pairs + Suc n"
    using more by (simp add: n_def)
  have ins: "\<forall>(col, row) \<in> set pairs.
        unat (translate_to_1D col row num_cols num_rows) < length ?w0"
    using inside by simp
  have st: "store ?marked (translate_to_1D c r num_cols num_rows) 1 = None"
    using outside by (simp add: store_def fold_mark_length)
  have "initialize_world
           (Some (Some num_rows # Some num_cols # Some num_pairs
                    # pair_items pairs @ Some c # Some r # rest))
      = read_pairs (length pairs + Suc n) (pair_items pairs @ Some c # Some r # rest)
          (Some ?w0) num_cols num_rows"
    by (simp only: initialize_world_header calloc_world_fits [OF fits] n)
  also have "\<dots> = read_pairs (Suc n) (Some c # Some r # rest) (Some ?marked) num_cols num_rows"
    by (rule read_pairs_marks [OF ins])
  also have "\<dots> = Stray_store (translate_to_1D c r num_cols num_rows)"
    using st by simp
  finally show ?thesis .
qed

text \<open>
  C9. The configuration \<^verbatim>\<open>1 1 1 5 5\<close> announces one row, one column and one pair,
  \<open>(5, 5)\<close>. \<^verbatim>\<open>calloc\<close> gives a grid of one cell. \<^verbatim>\<open>translate_to_1D\<close> shifts each
  coordinate once, to 4, and returns the index 8, which is no index of the grid; the
  store \<^verbatim>\<open>world[8] = 1\<close> that follows, made without a check, lies outside the
  allocation. The same store is made on \<^verbatim>\<open>1 1 2 5 5 x\<close>, before the pair that cannot
  be read is met. So \<^verbatim>\<open>initialize_world\<close> does not, for every input, either return
  \<^verbatim>\<open>NULL\<close> or return a grid in which each listed pair has marked its cell.
\<close>

theorem initialize_world_stray_store:
  "calloc_world 1 1 = Some [0]
   \<and> translate_to_1D 5 5 1 1 = 8
   \<and> store [0] (translate_to_1D 5 5 1 1) 1 = None
   \<and> initialize_world (Some [Some 1, Some 1, Some 1, Some 5, Some 5]) = Stray_store 8
   \<and> initialize_world (Some [Some 1, Some 1, Some 2, Some 5, Some 5, None]) = Stray_store 8"
proof -
  have c: "calloc_world 1 1 = Some [0]" by code_simp
  have t: "translate_to_1D 5 5 1 1 = 8" by code_simp
  have s: "store [0] (translate_to_1D 5 5 1 1) 1 = None" by code_simp
  have i: "initialize_world (Some [Some 1, Some 1, Some 1, Some 5, Some 5]) = Stray_store 8"
    by code_simp
  have j: "initialize_world (Some [Some 1, Some 1, Some 2, Some 5, Some 5, None]) = Stray_store 8"
    by code_simp
  from c t s i j show ?thesis by (intro conjI)
qed

text \<open>
  The product of the dimensions is not checked either: for 65536 rows and 65536
  columns it is 0 as an \<^verbatim>\<open>int\<close>, and the grid returned has no cell.
\<close>

lemma initialize_world_product:
  "initialize_world (Some [Some 65536, Some 65536, Some 0]) = World [] 65536 65536"
  by code_simp


section \<open>The command line\<close>

lemma getopt_loop_p:
  "getopt_loop args opts = Inr opts' \<Longrightarrow> opt_p opts' = opt_p opts"
  by (induction args opts rule: getopt_loop.induct) (auto split: if_splits scan.splits)

text \<open>The last \<open>-p\<close> option decides \<^verbatim>\<open>num_threads\<close>.\<close>

lemma getopt_loop_num_threads:
  "getopt_loop args opts = Inr opts' \<Longrightarrow>
     (if p_arguments args = [] then opt_num_threads opts' = opt_num_threads opts
      else sscanf_d (last (p_arguments args)) = Converted (opt_num_threads opts'))"
proof (induction args opts rule: getopt_loop.induct)
  case (1 opts)
  then show ?case by (simp add: p_arguments_def)
next
  case (2 ch optarg rest opts)
  show ?case
  proof (cases "ch = CHR ''p''")
    case True
    with "2.prems" obtain v where v: "sscanf_d optarg = Converted v"
      and r: "getopt_loop rest (opts\<lparr>opt_num_threads := v\<rparr>) = Inr opts'"
      by (auto split: scan.splits)
    have ih: "if p_arguments rest = []
              then opt_num_threads opts' = opt_num_threads (opts\<lparr>opt_num_threads := v\<rparr>)
              else sscanf_d (last (p_arguments rest)) = Converted (opt_num_threads opts')"
      using "2.IH"(4) [OF _ _ _ True v r] True by simp
    have p: "p_arguments ((ch, optarg) # rest) = optarg # p_arguments rest"
      using True by (simp add: p_arguments_def)
    show ?thesis unfolding p using ih v by (simp split: if_splits)
  next
    case False
    have p: "p_arguments ((ch, optarg) # rest) = p_arguments rest"
      using False by (simp add: p_arguments_def)
    from False "2.prems" "2.IH"(1-3) show ?thesis
      unfolding p by (auto split: if_splits scan.splits)
  qed
qed

text \<open>The thread data that \<^verbatim>\<open>run_threads\<close> fills: one entry for each thread id.\<close>

lemma fill_td_ids:
  "map td_id (fill_td ids remainder cur rows_per_thread num_turns width height) = ids"
  by (induction ids arbitrary: remainder cur) (simp_all add: Let_def)

lemma partition_rows_ids:
  "map td_id (partition_rows T nt W H) = lt_range 0 T"
  by (simp add: partition_rows_def fill_td_ids)

text \<open>
  C8, amended. The argument of \<open>-p\<close> is converted into \<open>num_threads\<close>, the variable
  that \<open>main\<close> passes to \<open>run_threads\<close> as the number of threads; the variable \<open>p\<close> is
  the one that no option sets, and it keeps its first value 1. After a command line
  that \<open>main\<close> accepts, \<open>num_threads\<close> is 2 when there is no \<open>-p\<close> option and else the
  value that the argument of the last \<open>-p\<close> option converts to; \<open>main\<close> calls
  \<open>run_threads\<close> with it; and when it is 1 or more, \<open>run_threads\<close> fills as many
  entries of thread data, with the ids from 0 on, and runs the turns of these threads.
\<close>

theorem p_option_sets_num_threads:
  assumes "getopt_loop args defaults = Inr opts"
  shows "opt_p opts = 1
       \<and> (if p_arguments args = [] then opt_num_threads opts = 2
          else sscanf_d (last (p_arguments args)) = Converted (opt_num_threads opts))
       \<and> (opt_config_filename opts = Some f \<and> initialize_world (files f) = World world W H
            \<longrightarrow> main args files
                = run_threads (opt_num_threads opts) (opt_num_turns opts) world W H)
       \<and> (0 <s opt_num_threads opts \<longrightarrow>
            length (partition_rows (opt_num_threads opts) (opt_num_turns opts) W H)
              = nat (sint (opt_num_threads opts))
          \<and> map td_id (partition_rows (opt_num_threads opts) (opt_num_turns opts) W H)
              = lt_range 0 (opt_num_threads opts)
          \<and> run_threads (opt_num_threads opts) (opt_num_turns opts) world W H
              = (case turns (nat (sint (opt_num_turns opts)))
                        (partition_rows (opt_num_threads opts) (opt_num_turns opts) W H)
                        \<lparr>next_world = world, curr_world = replicate (nat (sint (W * H))) 0,
                         written = []\<rparr> of
                   None \<Rightarrow> Inl Undefined_behaviour
                 | Some m \<Rightarrow> Inr (next_world m)))"
proof (intro conjI impI)
  show "opt_p opts = 1"
    using getopt_loop_p [OF assms] by (simp add: defaults_def)
  show "if p_arguments args = [] then opt_num_threads opts = 2
        else sscanf_d (last (p_arguments args)) = Converted (opt_num_threads opts)"
    using getopt_loop_num_threads [OF assms] by (simp add: defaults_def)
  show "length (partition_rows (opt_num_threads opts) (opt_num_turns opts) W H)
          = nat (sint (opt_num_threads opts))"
    by (rule partition_rows_length)
  show "map td_id (partition_rows (opt_num_threads opts) (opt_num_turns opts) W H)
          = lt_range 0 (opt_num_threads opts)"
    by (rule partition_rows_ids)
next
  assume "opt_config_filename opts = Some f \<and> initialize_world (files f) = World world W H"
  then show "main args files
      = run_threads (opt_num_threads opts) (opt_num_turns opts) world W H"
    using assms by (simp add: main_def)
next
  assume "0 <s opt_num_threads opts"
  then have "opt_num_threads opts \<noteq> 0" "opt_num_threads opts \<noteq> - 1"
    "\<not> opt_num_threads opts <s 0"
    by (auto simp: word_sless_alt)
  then show "run_threads (opt_num_threads opts) (opt_num_turns opts) world W H
              = (case turns (nat (sint (opt_num_turns opts)))
                        (partition_rows (opt_num_threads opts) (opt_num_turns opts) W H)
                        \<lparr>next_world = world, curr_world = replicate (nat (sint (W * H))) 0,
                         written = []\<rparr> of
                   None \<Rightarrow> Inl Undefined_behaviour
                 | Some m \<Rightarrow> Inr (next_world m))"
    by (simp add: run_threads_def Let_def)
qed

theorem p_option_sets_num_threads_witness:
  "getopt_loop [(CHR ''c'', ''f''), (CHR ''t'', ''1''), (CHR ''p'', ''4'')] defaults
     = Inr \<lparr>opt_config_filename = Some ''f'', opt_delay = 100, opt_num_turns = 1,
            opt_p = 1, opt_num_threads = 4\<rparr>
   \<and> sscanf_d (last (p_arguments [(CHR ''c'', ''f''), (CHR ''t'', ''1''), (CHR ''p'', ''4'')]))
       = Converted 4
   \<and> 0 <s (4 :: 32 word)
   \<and> length (partition_rows 4 1 3 4) = 4
   \<and> map td_id (partition_rows 4 1 3 4) = [0, 1, 2, 3]
   \<and> main [(CHR ''c'', ''f''), (CHR ''t'', ''1''), (CHR ''p'', ''4'')]
        (\<lambda>name. Some [Some 4, Some 3, Some 3, Some 1, Some 0, Some 1, Some 1, Some 1, Some 2])
       = Inr [0, 0, 0, 1, 1, 1, 0, 0, 0, 0, 0, 0]"
proof -
  let ?args = "[(CHR ''c'', ''f''), (CHR ''t'', ''1''), (CHR ''p'', ''4'')]"
  let ?opts = "\<lparr>opt_config_filename = Some ''f'', opt_delay = 100, opt_num_turns = 1,
                opt_p = 1, opt_num_threads = 4\<rparr>"
  let ?files = "\<lambda>name :: string.
      Some [Some 4, Some 3, Some 3, Some 1, Some 0, Some 1, Some 1, Some 1, Some (2 :: 32 word)]"
  have g: "getopt_loop ?args defaults = Inr ?opts" by code_simp
  have pa: "p_arguments ?args \<noteq> []" by (simp add: p_arguments_def)
  have i: "initialize_world (?files ''f'') = World blinker 3 4"
    unfolding blinker_def by code_simp
  have r: "run_threads 4 1 blinker 3 4 = Inr [0, 0, 0, 1, 1, 1, 0, 0, 0, 0, 0, 0]"
    by code_simp
  have t: "0 <s (4 :: 32 word)" by (simp add: word_sless_alt)
  have l: "lt_range 0 (4 :: 32 word) = [0, 1, 2, 3]" by code_simp
  note inst = p_option_sets_num_threads
    [OF g, where f = "''f''" and files = ?files and world = blinker and W = 3 and H = 4]
  have 1: "sscanf_d (last (p_arguments ?args)) = Converted 4"
    using inst [THEN conjunct2, THEN conjunct1] pa by simp
  have 2: "main ?args ?files = run_threads 4 1 blinker 3 4"
    using inst [THEN conjunct2, THEN conjunct2, THEN conjunct1] i by simp
  have 3: "length (partition_rows 4 1 3 4) = 4" "map td_id (partition_rows 4 1 3 4) = [0, 1, 2, 3]"
    using inst [THEN conjunct2, THEN conjunct2, THEN conjunct2] t l by simp_all
  from g 1 t 3 2 [unfolded r] show ?thesis by (intro conjI)
qed

text \<open>
  With \<open>-p 4\<close> the number of threads is 4 and four entries of thread data are filled,
  not the two of the default.
\<close>

theorem p_option_counterexample:
  "getopt_loop [(CHR ''c'', ''f''), (CHR ''p'', ''4'')] defaults
     = Inr \<lparr>opt_config_filename = Some ''f'', opt_delay = 100, opt_num_turns = 20,
            opt_p = 1, opt_num_threads = 4\<rparr>
   \<and> opt_num_threads defaults = 2
   \<and> length (partition_rows 4 20 3 5) = 4
   \<and> length (partition_rows (opt_num_threads defaults) 20 3 5) = 2"
proof -
  have "sscanf_d ''4'' = Converted 4" by code_simp
  then show ?thesis
    by (simp add: defaults_def partition_rows_length)
qed


end
